theory Spec2Isabelle
  imports Complex_Main "HOL-Library.Word" "HOL-Library.Product_Lexorder"
begin

unbundle bit_operations_syntax

section \<open>Core types (sjs/core/types.h)\<close>

text \<open>
  Fixed-width integers of the source: \<open>u64\<close> values that are produced by wrapping
  arithmetic (the random generator, seeds, the join-size accumulator) are \<open>64 word\<close>.
  Indices, handles, ranks and vector sizes (\<open>u32\<close> and \<open>usize\<close> in the source) are
  \<open>nat\<close>; where a \<open>u32\<close> computation of the source can wrap, the reduction
  \<open>mod 2 ^ 32\<close> is written out.  Coordinates (\<open>Scalar = double\<close>) are
  compared only with \<open><\<close> in the modelled code, so any linear order serves; NaN is
  excluded by the precondition of the data model.
\<close>

type_synonym u64 = "64 word"
type_synonym Id = nat

definition u32_max :: nat where
  "u32_max = 2 ^ 32 - 1"

definition u32 :: "nat \<Rightarrow> nat" where
  "u32 n = n mod 2 ^ 32"

text \<open>\<open>PairId\<close>: the pair \<open>(r, s)\<close> of object ids.\<close>

type_synonym PairId = "Id \<times> Id"

section \<open>Geometry (sjs/geometry/box.h, sjs/geometry/predicates.h)\<close>

text \<open>
  The repository instantiates \<open>Dim = 2\<close> only.  A \<open>Point\<close> is its coordinate array
  \<open>v\<close>, a list of length \<open>Dim\<close>; a \<open>Box\<close> is the pair of its corners.
\<close>

definition Dim :: nat where
  "Dim = 2"

record 'a Box =
  lo :: "'a list"
  hi :: "'a list"

definition mkBox :: "'a \<Rightarrow> 'a \<Rightarrow> 'a \<Rightarrow> 'a \<Rightarrow> 'a Box" where
  "mkBox x0 x1 y0 y1 = \<lparr>lo = [x0, y0], hi = [x1, y1]\<rparr>"

text \<open>\<open>IsValid\<close>: no axis has \<open>lo > hi\<close>.  \<open>IsEmpty\<close>: some axis has \<open>\<not> lo < hi\<close>.\<close>

definition IsValid :: "('a::linorder) Box \<Rightarrow> bool" where
  "IsValid b = list_all (\<lambda>i. \<not> (lo b ! i > hi b ! i)) [0..<Dim]"

definition IsEmpty :: "('a::linorder) Box \<Rightarrow> bool" where
  "IsEmpty b = list_ex (\<lambda>i. \<not> (lo b ! i < hi b ! i)) [0..<Dim]"

definition IsProper :: "('a::linorder) Box \<Rightarrow> bool" where
  "IsProper b = (\<not> IsEmpty b)"

text \<open>\<open>Box::Intersects\<close>: empties are rejected first, then every axis is tested.\<close>

definition Intersects :: "('a::linorder) Box \<Rightarrow> 'a Box \<Rightarrow> bool" where
  "Intersects a b =
     (if IsEmpty a \<or> IsEmpty b then False
      else list_all (\<lambda>i. lo a ! i < hi b ! i \<and> lo b ! i < hi a ! i) [0..<Dim])"

definition IntersectsHalfOpen :: "('a::linorder) Box \<Rightarrow> 'a Box \<Rightarrow> bool" where
  "IntersectsHalfOpen a b = Intersects a b"

section \<open>Datasets (sjs/io/dataset.h)\<close>

record 'a Relation =
  boxes :: "'a Box list"
  ids :: "Id list"

record 'a Dataset =
  half_open :: bool
  R :: "'a Relation"
  S :: "'a Relation"

definition Size :: "'a Relation \<Rightarrow> nat" where
  "Size rel = length (boxes rel)"

text \<open>\<open>GetId\<close>: the implicit id of the \<open>i\<close>-th object is \<open>i\<close> narrowed to 32 bits.\<close>

definition GetId :: "'a Relation \<Rightarrow> nat \<Rightarrow> Id" where
  "GetId rel i = (if ids rel = [] then u32 i else ids rel ! i)"

text \<open>
  \<open>Relation::Validate\<close> and \<open>Dataset::Validate\<close>, returning the error message
  (without the index of the offending box, which the source appends to it).
\<close>

fun Validate_boxes :: "bool \<Rightarrow> ('a::linorder) Box list \<Rightarrow> string option" where
  "Validate_boxes require_proper [] = None"
| "Validate_boxes require_proper (b # bs) =
     (if \<not> IsValid b then Some ''Invalid box (lo > hi)''
      else if require_proper \<and> IsEmpty b then Some ''Empty box (lo >= hi)''
      else Validate_boxes require_proper bs)"

definition Validate_rel :: "bool \<Rightarrow> ('a::linorder) Relation \<Rightarrow> string + unit" where
  "Validate_rel require_proper rel =
     (case Validate_boxes require_proper (boxes rel) of
        Some e \<Rightarrow> Inl e
      | None \<Rightarrow>
          if ids rel \<noteq> [] \<and> length (ids rel) \<noteq> length (boxes rel)
          then Inl ''ids.size() != boxes.size()''
          else Inr ())"

definition Validate :: "bool \<Rightarrow> ('a::linorder) Dataset \<Rightarrow> string + unit" where
  "Validate require_proper ds =
     (if \<not> half_open ds then Inl ''Dataset is not marked as half-open''
      else case Validate_rel require_proper (R ds) of
        Inl e \<Rightarrow> Inl (''R: '' @ e)
      | Inr _ \<Rightarrow>
          (case Validate_rel require_proper (S ds) of
             Inl e \<Rightarrow> Inl (''S: '' @ e)
           | Inr _ \<Rightarrow> Inr ()))"

section \<open>Sweep events (sjs/join/join_types.h, sjs/join/sweep_events.h)\<close>

datatype Side = SideR | SideS

datatype EventKind = End | Start

datatype SideTieBreak = RBeforeS | SBeforeR

text \<open>The numeric value of the enumerators: \<open>End = 0\<close>, \<open>Start = 1\<close>.\<close>

fun kind_u8 :: "EventKind \<Rightarrow> nat" where
  "kind_u8 End = 0"
| "kind_u8 Start = 1"

definition IsFirst :: "SideTieBreak \<Rightarrow> Side \<Rightarrow> Side \<Rightarrow> bool" where
  "IsFirst tb a b =
     (if a = b then False
      else if tb = RBeforeS then a = SideR \<and> b = SideS
      else a = SideS \<and> b = SideR)"

text \<open>
  \<open>struct Event\<close>; the fields \<open>x\<close> and \<open>id\<close> are named \<open>ex\<close> and \<open>eid\<close>
  here.
\<close>

record 'a Event =
  ex :: 'a
  kind :: EventKind
  side :: Side
  eid :: Id
  index :: nat

definition EventLess :: "SideTieBreak \<Rightarrow> ('a::linorder) Event \<Rightarrow> 'a Event \<Rightarrow> bool" where
  "EventLess side_order a b =
     (if ex a < ex b then True
      else if ex b < ex a then False
      else if kind_u8 (kind a) < kind_u8 (kind b) then True
      else if kind_u8 (kind b) < kind_u8 (kind a) then False
      else if eid a < eid b then True
      else if eid b < eid a then False
      else if side a \<noteq> side b then IsFirst side_order (side a) (side b)
      else index a < index b)"

text \<open>
  The fixed total order in the words of the specification: the lexicographic order on
  (x ascending, kind with End before Start, id ascending, side by the configured
  tie-break, index ascending).
\<close>

definition side_rank :: "SideTieBreak \<Rightarrow> Side \<Rightarrow> nat" where
  "side_rank tb s = (if tb = RBeforeS then (if s = SideR then 0 else 1)
                     else (if s = SideS then 0 else 1))"

definition spec_event_less :: "SideTieBreak \<Rightarrow> ('a::linorder) Event \<Rightarrow> 'a Event \<Rightarrow> bool" where
  "spec_event_less tb a b =
     (ex a < ex b \<or> (ex a = ex b \<and>
       (kind_u8 (kind a) < kind_u8 (kind b) \<or> (kind a = kind b \<and>
         (eid a < eid b \<or> (eid a = eid b \<and>
           (side_rank tb (side a) < side_rank tb (side b) \<or> (side a = side b \<and>
             index a < index b))))))))"

text \<open>The tuple of sort keys of an event, compared lexicographically.\<close>

definition event_key :: "SideTieBreak \<Rightarrow> ('a::linorder) Event \<Rightarrow> 'a \<times> nat \<times> nat \<times> nat \<times> nat" where
  "event_key tb e = (ex e, kind_u8 (kind e), eid e, side_rank tb (side e), index e)"

text \<open>
  \<open>AppendRelationEvents\<close>: one Start and one End event per box, in index order; a box
  that is empty on the sweep axis is skipped.
\<close>

definition box_events :: "('a::linorder) Relation \<Rightarrow> Side \<Rightarrow> nat \<Rightarrow> nat \<Rightarrow> 'a Event list" where
  "box_events rel sd axis i =
     (let b = boxes rel ! i;
          start = lo b ! axis;
          end' = hi b ! axis;
          ident = GetId rel i
      in if \<not> (start < end') then []
         else [\<lparr>ex = start, kind = Start, side = sd, eid = ident, index = i\<rparr>,
               \<lparr>ex = end', kind = End, side = sd, eid = ident, index = i\<rparr>])"

definition AppendRelationEvents ::
  "('a::linorder) Relation \<Rightarrow> Side \<Rightarrow> nat \<Rightarrow> 'a Event list \<Rightarrow> 'a Event list" where
  "AppendRelationEvents rel sd axis events =
     events @ concat (map (box_events rel sd axis) [0..<length (boxes rel)])"

text \<open>
  \<open>std::sort\<close> with a comparator, as insertion sort.  On the events of a dataset
  \<open>EventLess\<close> is a strict total order (lemma \<open>EventLess_total\<close> below), so every
  sorting algorithm returns the same sequence.
\<close>

fun insort_by :: "('e \<Rightarrow> 'e \<Rightarrow> bool) \<Rightarrow> 'e \<Rightarrow> 'e list \<Rightarrow> 'e list" where
  "insort_by lt e [] = [e]"
| "insort_by lt e (y # ys) = (if lt y e then y # insort_by lt e ys else e # y # ys)"

definition sort_by :: "('e \<Rightarrow> 'e \<Rightarrow> bool) \<Rightarrow> 'e list \<Rightarrow> 'e list" where
  "sort_by lt xs = foldr (insort_by lt) xs []"

definition SortSweepEvents :: "SideTieBreak \<Rightarrow> ('a::linorder) Event list \<Rightarrow> 'a Event list" where
  "SortSweepEvents side_order events = sort_by (EventLess side_order) events"

definition BuildSweepEvents :: "('a::linorder) Dataset \<Rightarrow> nat \<Rightarrow> SideTieBreak \<Rightarrow> 'a Event list" where
  "BuildSweepEvents ds axis side_order =
     SortSweepEvents side_order
       (AppendRelationEvents (S ds) SideS axis (AppendRelationEvents (R ds) SideR axis []))"

section \<open>The brute-force oracle (sjs/join/join_oracle.h)\<close>

text \<open>
  \<open>CountNaive\<close>: the double loop over \<open>R \<times> S\<close>, incrementing a \<open>u64\<close> counter
  for every pair that satisfies the half-open predicate.
\<close>

fun CountNaive_inner :: "('a::linorder) Box \<Rightarrow> 'a Box list \<Rightarrow> u64 \<Rightarrow> u64" where
  "CountNaive_inner rb [] count = count"
| "CountNaive_inner rb (sb # sbs) count =
     CountNaive_inner rb sbs (if IntersectsHalfOpen rb sb then count + 1 else count)"

fun CountNaive_outer :: "('a::linorder) Box list \<Rightarrow> 'a Box list \<Rightarrow> u64 \<Rightarrow> u64" where
  "CountNaive_outer [] sbs count = count"
| "CountNaive_outer (rb # rbs) sbs count = CountNaive_outer rbs sbs (CountNaive_inner rb sbs count)"

definition CountNaive :: "('a::linorder) Relation \<Rightarrow> 'a Relation \<Rightarrow> u64" where
  "CountNaive r s = CountNaive_outer (boxes r) (boxes s) 0"

section \<open>Random numbers and seed derivation (sjs/core/rng.h)\<close>

definition Rotl :: "u64 \<Rightarrow> nat \<Rightarrow> u64" where
  "Rotl v k = (push_bit k v) OR (drop_bit (64 - k) v)"

text \<open>\<open>SplitMix64::Next\<close>: the new state and the value drawn.\<close>

definition SplitMix64_Next :: "u64 \<Rightarrow> u64 \<times> u64" where
  "SplitMix64_Next state =
     (let state1 = state + 0x9e3779b97f4a7c15;
          z0 = state1;
          z1 = (z0 XOR (drop_bit 30 z0)) * 0xbf58476d1ce4e5b9;
          z2 = (z1 XOR (drop_bit 27 z1)) * 0x94d049bb133111eb
      in (z2 XOR (drop_bit 31 z2), state1))"

text \<open>The state \<open>s_[0..3]\<close> of \<open>Xoshiro256StarStar\<close>; an \<open>Rng\<close> wraps one.\<close>

record Rng =
  s0 :: u64
  s1 :: u64
  s2 :: u64
  s3 :: u64

definition Seed :: "u64 \<Rightarrow> Rng" where
  "Seed seed =
     (let (a, sm1) = SplitMix64_Next seed;
          (b, sm2) = SplitMix64_Next sm1;
          (c, sm3) = SplitMix64_Next sm2;
          (d, sm4) = SplitMix64_Next sm3
      in if (a OR b OR c OR d) = 0
         then \<lparr>s0 = 0x9e3779b97f4a7c15, s1 = b, s2 = c, s3 = d\<rparr>
         else \<lparr>s0 = a, s1 = b, s2 = c, s3 = d\<rparr>)"

definition NextU64 :: "Rng \<Rightarrow> u64 \<times> Rng" where
  "NextU64 g =
     (let result = Rotl (s1 g * 5) 7 * 9;
          t = push_bit 17 (s1 g);
          a2 = s2 g XOR s0 g;
          a3 = s3 g XOR s1 g;
          a1 = s1 g XOR a2;
          a0 = s0 g XOR a3;
          b2 = a2 XOR t;
          b3 = Rotl a3 45
      in (result, \<lparr>s0 = a0, s1 = a1, s2 = b2, s3 = b3\<rparr>))"

text \<open>
  \<open>NextDouble\<close>: the top 53 bits scaled by \<open>2\<^sup>-\<^sup>5\<^sup>3\<close>.  The product is exact in
  double precision, so the value is this rational number.
\<close>

definition NextDouble :: "Rng \<Rightarrow> rat \<times> Rng" where
  "NextDouble g = (let (v, g') = NextU64 g in (of_nat (unat (drop_bit 11 v)) / 2 ^ 53, g'))"

text \<open>
  \<open>UniformU64\<close>, the branch taken where 128-bit integers exist (the alias table uses
  \<open>__uint128_t\<close> unconditionally): Lemire's method.  The rejection loop has no bound on
  its number of iterations, so the function is partial: \<open>None\<close> is a loop that never
  leaves the bias region.
\<close>

partial_function (option) UniformU64_loop :: "u64 \<Rightarrow> u64 \<Rightarrow> Rng \<Rightarrow> (u64 \<times> Rng) option" where
  "UniformU64_loop bound threshold g =
     (let (v, g') = NextU64 g;
          m = unat v * unat bound;
          l = (word_of_nat m :: u64)
      in if l \<ge> threshold then Some (word_of_nat (m div 2 ^ 64), g')
         else UniformU64_loop bound threshold g')"

definition UniformU64 :: "Rng \<Rightarrow> u64 \<Rightarrow> (u64 \<times> Rng) option" where
  "UniformU64 g bound =
     (if bound = 0 then Some (0, g)
      else UniformU64_loop bound ((- bound) mod bound) g)"

text \<open>\<open>UniformU32\<close>: the bound widened to 64 bits, the result narrowed to 32.\<close>

definition UniformU32 :: "Rng \<Rightarrow> nat \<Rightarrow> (nat \<times> Rng) option" where
  "UniformU32 g bound =
     (case UniformU64 g (word_of_nat bound) of
        None \<Rightarrow> None
      | Some (v, g') \<Rightarrow> Some (u32 (unat v), g'))"




section \<open>Segment trees of the active index (sjs/baselines/ours/sampling.h)\<close>

text \<open>
  Vectors are lists; \<open>v[i]\<close> is \<open>v ! i\<close> and an assignment to \<open>v[i]\<close> is
  \<open>v[i := a]\<close>.  The \<open>SJS_DASSERT\<close> checks of the source are compiled out of
  release builds and are not part of the model.

  Both trees walk the same two index sequences.  \<open>path_nodes idx\<close> lists the values
  of \<open>idx\<close> in \<open>while (idx > 0) { ...; idx >>= 1; }\<close>.  \<open>cover_nodes l r\<close> lists
  the nodes visited by
  \<open>while (l < r) { if (l & 1) visit(l++); if (r & 1) visit(--r); l >>= 1; r >>= 1; }\<close>,
  in the order of the visits.
\<close>

function path_nodes :: "nat \<Rightarrow> nat list" where
  "path_nodes idx = (if idx > 0 then idx # path_nodes (idx div 2) else [])"
  by pat_completeness auto
termination
  by (relation "measure (\<lambda>idx. idx)") auto

declare path_nodes.simps [simp del]

function cover_nodes :: "nat \<Rightarrow> nat \<Rightarrow> nat list" where
  "cover_nodes l r =
     (if l < r
      then (if odd l then [l] else []) @ (if odd r then [r - 1] else []) @
           cover_nodes ((if odd l then l + 1 else l) div 2) ((if odd r then r - 1 else r) div 2)
      else [])"
  by pat_completeness auto
termination
  by (relation "measure (\<lambda>(l, r). r)") auto

declare cover_nodes.simps [simp del]

text \<open>
  \<open>DecomposeOrdered\<close> keeps the nodes taken on the left and on the right apart and
  returns the left ones followed by the right ones in reverse.
\<close>

function decompose_lr :: "nat \<Rightarrow> nat \<Rightarrow> nat list \<times> nat list" where
  "decompose_lr l r =
     (if l < r
      then (let (left, right) =
                  decompose_lr ((if odd l then l + 1 else l) div 2)
                               ((if odd r then r - 1 else r) div 2)
            in ((if odd l then [l] else []) @ left, (if odd r then [r - 1] else []) @ right))
      else ([], []))"
  by pat_completeness auto
termination
  by (relation "measure (\<lambda>(l, r). r)") auto

declare decompose_lr.simps [simp del]

text \<open>
  The loop \<open>p_ = 1; while (p_ < m_) p_ <<= 1;\<close> on a \<open>u32\<close>.  For
  \<open>m_ > 2\<^sup>3\<^sup>1\<close> the shift wraps to \<open>0\<close> and the loop never ends: the function is
  partial.
\<close>

partial_function (option) pow2_loop :: "nat \<Rightarrow> nat \<Rightarrow> nat option" where
  "pow2_loop p m = (if p < m then pow2_loop (u32 (p * 2)) m else Some p)"

text \<open>\<open>for (u32 x = p_; x > 1; x >>= 1) ++logp;\<close>\<close>

function log2_loop :: "nat \<Rightarrow> nat \<Rightarrow> nat" where
  "log2_loop v logp = (if v > 1 then log2_loop (v div 2) (logp + 1) else logp)"
  by pat_completeness auto
termination
  by (relation "measure (\<lambda>(v, logp). v)") auto

declare log2_loop.simps [simp del]

definition kInvalidRank :: nat where
  "kInvalidRank = u32_max"

record Item =
  handle :: nat
  backref :: nat

subsection \<open>RangePointSegTree (Pattern B)\<close>

record RangePointSegTree =
  rp_n_handles :: nat
  rp_m :: nat
  rp_p :: nat
  rp_max_refs :: nat
  rp_nodes :: "Item list list"
  rp_pos_in_node :: "nat list"
  rp_placement_size :: "nat list"
  rp_rank_of_handle :: "nat list"

definition rp_Init :: "nat \<Rightarrow> nat \<Rightarrow> RangePointSegTree option" where
  "rp_Init num_handles num_ranks =
     (case pow2_loop 1 num_ranks of
        None \<Rightarrow> None
      | Some p \<Rightarrow>
          (let max_refs = u32 (log2_loop p 0 + 1)
           in Some \<lparr>rp_n_handles = num_handles, rp_m = num_ranks, rp_p = p,
                     rp_max_refs = max_refs,
                     rp_nodes = replicate (u32 (2 * p)) [],
                     rp_pos_in_node = replicate (num_handles * max_refs) 0,
                     rp_placement_size = replicate num_handles 0,
                     rp_rank_of_handle = replicate num_handles kInvalidRank\<rparr>))"

definition rp_Clear :: "RangePointSegTree" where
  "rp_Clear = \<lparr>rp_n_handles = 0, rp_m = 0, rp_p = 0, rp_max_refs = 0, rp_nodes = [],
              rp_pos_in_node = [], rp_placement_size = [], rp_rank_of_handle = []\<rparr>"

definition rp_ResetActive :: "RangePointSegTree \<Rightarrow> RangePointSegTree" where
  "rp_ResetActive t =
     t\<lparr>rp_nodes := map (\<lambda>_. []) (rp_nodes t),
       rp_placement_size := map (\<lambda>_. 0) (rp_placement_size t),
       rp_rank_of_handle := map (\<lambda>_. kInvalidRank) (rp_rank_of_handle t)\<rparr>"

definition rp_PlacementIndex :: "RangePointSegTree \<Rightarrow> nat \<Rightarrow> nat \<Rightarrow> nat" where
  "rp_PlacementIndex t h b = h * rp_max_refs t + b"

definition rp_AddToNode :: "RangePointSegTree \<Rightarrow> nat \<Rightarrow> nat \<Rightarrow> nat \<Rightarrow> RangePointSegTree" where
  "rp_AddToNode t h node b =
     (let bucket = rp_nodes t ! node;
          pos = length bucket
      in t\<lparr>rp_pos_in_node := (rp_pos_in_node t)[rp_PlacementIndex t h b := pos],
           rp_nodes := (rp_nodes t)[node := bucket @ [\<lparr>handle = h, backref = b\<rparr>]]\<rparr>)"

text \<open>\<open>RemoveFromNode\<close>: swap the last item into the hole, then drop the last.\<close>

definition rp_RemoveFromNode :: "RangePointSegTree \<Rightarrow> nat \<Rightarrow> nat \<Rightarrow> RangePointSegTree" where
  "rp_RemoveFromNode t node pos =
     (let bucket = rp_nodes t ! node;
          last_pos = length bucket - 1
      in if pos \<noteq> last_pos
         then (let swapped = bucket ! last_pos
               in t\<lparr>rp_pos_in_node :=
                      (rp_pos_in_node t)[rp_PlacementIndex t (handle swapped) (backref swapped) := pos],
                    rp_nodes := (rp_nodes t)[node := butlast (bucket[pos := swapped])]\<rparr>)
         else t\<lparr>rp_nodes := (rp_nodes t)[node := butlast bucket]\<rparr>)"

text \<open>The loop of \<open>Insert\<close> threads the tree and the running \<open>backref\<close>.\<close>

definition rp_Insert :: "RangePointSegTree \<Rightarrow> nat \<Rightarrow> nat \<Rightarrow> RangePointSegTree" where
  "rp_Insert t h rank =
     (let t1 = t\<lparr>rp_rank_of_handle := (rp_rank_of_handle t)[h := rank]\<rparr>;
          (t2, b) = fold (\<lambda>idx (u, b). (rp_AddToNode u h idx b, b + 1))
                         (path_nodes (u32 (rank + rp_p t))) (t1, 0)
      in t2\<lparr>rp_placement_size := (rp_placement_size t2)[h := b]\<rparr>)"

text \<open>
  \<open>Erase\<close>: \<open>sz\<close> removals, starting at the leaf and halving the node index.
\<close>

fun rp_Erase_loop :: "nat \<Rightarrow> nat \<Rightarrow> nat \<Rightarrow> nat \<Rightarrow> RangePointSegTree \<Rightarrow> RangePointSegTree" where
  "rp_Erase_loop h 0 i idx t = t"
| "rp_Erase_loop h (Suc n) i idx t =
     rp_Erase_loop h n (i + 1) (idx div 2)
       (rp_RemoveFromNode t idx (rp_pos_in_node t ! rp_PlacementIndex t h i))"

definition rp_Erase :: "RangePointSegTree \<Rightarrow> nat \<Rightarrow> RangePointSegTree" where
  "rp_Erase t h =
     (let sz = rp_placement_size t ! h
      in if sz = 0 then t
         else (let rank = rp_rank_of_handle t ! h;
                   t1 = rp_Erase_loop h sz 0 (u32 (rank + rp_p t)) t
               in t1\<lparr>rp_placement_size := (rp_placement_size t1)[h := 0],
                     rp_rank_of_handle := (rp_rank_of_handle t1)[h := kInvalidRank]\<rparr>))"

definition bucket_size :: "Item list list \<Rightarrow> nat \<Rightarrow> u64" where
  "bucket_size ns node = word_of_nat (length (ns ! node))"

definition rp_CountRange :: "RangePointSegTree \<Rightarrow> nat \<Rightarrow> nat \<Rightarrow> u64" where
  "rp_CountRange t l r =
     (if r \<le> l \<or> rp_m t = 0 then 0
      else (let l1 = min l (rp_m t); r1 = min r (rp_m t)
            in if r1 \<le> l1 then 0
               else fold (\<lambda>node tot. tot + bucket_size (rp_nodes t) node)
                         (cover_nodes (u32 (l1 + rp_p t)) (u32 (r1 + rp_p t))) 0))"

definition rp_DecomposeOrdered :: "RangePointSegTree \<Rightarrow> nat \<Rightarrow> nat \<Rightarrow> nat list" where
  "rp_DecomposeOrdered t l r =
     (if r \<le> l then []
      else (let (left, right) = decompose_lr (u32 (l + rp_p t)) (u32 (r + rp_p t))
            in left @ rev right))"

text \<open>
  The draw loop shared, word for word, by \<open>SampleRange\<close> and \<open>StabbingSegTree::Sample\<close>:
  a prefix scan over the weights picks the bucket, then a uniform position picks the item.
\<close>

fun prefix_scan :: "u64 \<Rightarrow> u64 list \<Rightarrow> u64 \<Rightarrow> nat \<Rightarrow> nat" where
  "prefix_scan v [] cum bi = bi"
| "prefix_scan v (w # ws) cum bi =
     (if v < cum + w then bi else prefix_scan v ws (cum + w) (bi + 1))"

definition draw_one ::
  "Item list list \<Rightarrow> nat list \<Rightarrow> u64 list \<Rightarrow> u64 \<Rightarrow> Rng \<Rightarrow> (nat \<times> Rng) option" where
  "draw_one ns sel weights tot g =
     (case UniformU64 g tot of
        None \<Rightarrow> None
      | Some (v, g1) \<Rightarrow>
          (let nz = length sel;
               bi0 = prefix_scan v weights 0 0;
               bi = (if bi0 \<ge> nz then nz - 1 else bi0);
               bucket = ns ! (sel ! bi)
           in case UniformU32 g1 (u32 (length bucket)) of
                None \<Rightarrow> None
              | Some (pos, g2) \<Rightarrow> Some (handle (bucket ! pos), g2)))"

fun draw_loop ::
  "Item list list \<Rightarrow> nat list \<Rightarrow> u64 list \<Rightarrow> u64 \<Rightarrow> nat \<Rightarrow> nat list \<Rightarrow> Rng
     \<Rightarrow> (nat list \<times> Rng) option" where
  "draw_loop ns sel weights tot 0 out g = Some (out, g)"
| "draw_loop ns sel weights tot (Suc k) out g =
     (case draw_one ns sel weights tot g of
        None \<Rightarrow> None
      | Some (h, g') \<Rightarrow> draw_loop ns sel weights tot k (out @ [h]) g')"

text \<open>
  The non-empty buckets among the visited nodes, their sizes and the sum of the sizes,
  then \<open>k\<close> draws.  The result is the returned flag, the output vector and the generator.
\<close>

definition sample_buckets ::
  "Item list list \<Rightarrow> nat list \<Rightarrow> nat \<Rightarrow> Rng \<Rightarrow> ((bool \<times> nat list) \<times> Rng) option" where
  "sample_buckets ns visited k g =
     (let sel = filter (\<lambda>node. bucket_size ns node \<noteq> 0) visited;
          weights = map (bucket_size ns) sel;
          tot = fold (\<lambda>w acc. acc + w) weights 0
      in if tot = 0 \<or> length sel = 0 then Some ((False, []), g)
         else (case draw_loop ns sel weights tot k [] g of
                 None \<Rightarrow> None
               | Some (out, g') \<Rightarrow> Some ((True, out), g')))"

definition rp_SampleRange ::
  "RangePointSegTree \<Rightarrow> nat \<Rightarrow> nat \<Rightarrow> nat \<Rightarrow> Rng \<Rightarrow> ((bool \<times> nat list) \<times> Rng) option" where
  "rp_SampleRange t l r k g =
     (if k = 0 then Some ((True, []), g)
      else if r \<le> l \<or> rp_m t = 0 then Some ((False, []), g)
      else (let l1 = min l (rp_m t); r1 = min r (rp_m t)
            in if r1 \<le> l1 then Some ((False, []), g)
               else sample_buckets (rp_nodes t) (rp_DecomposeOrdered t l1 r1) k g))"


subsection \<open>StabbingSegTree (Pattern A)\<close>

record StabbingSegTree =
  st_n_handles :: nat
  st_m :: nat
  st_p :: nat
  st_max_refs :: nat
  st_nodes :: "Item list list"
  st_pos_in_node :: "nat list"
  st_placement_size :: "nat list"
  st_lo_rank :: "nat list"
  st_hi_rank :: "nat list"

definition st_Init :: "nat \<Rightarrow> nat \<Rightarrow> StabbingSegTree option" where
  "st_Init num_handles num_points =
     (case pow2_loop 1 num_points of
        None \<Rightarrow> None
      | Some p \<Rightarrow>
          (let max_refs = u32 (2 * log2_loop p 0 + 4)
           in Some \<lparr>st_n_handles = num_handles, st_m = num_points, st_p = p,
                     st_max_refs = max_refs,
                     st_nodes = replicate (u32 (2 * p)) [],
                     st_pos_in_node = replicate (num_handles * max_refs) 0,
                     st_placement_size = replicate num_handles 0,
                     st_lo_rank = replicate num_handles kInvalidRank,
                     st_hi_rank = replicate num_handles kInvalidRank\<rparr>))"

definition st_Clear :: "StabbingSegTree" where
  "st_Clear = \<lparr>st_n_handles = 0, st_m = 0, st_p = 0, st_max_refs = 0, st_nodes = [],
              st_pos_in_node = [], st_placement_size = [], st_lo_rank = [], st_hi_rank = []\<rparr>"

definition st_ResetActive :: "StabbingSegTree \<Rightarrow> StabbingSegTree" where
  "st_ResetActive t =
     t\<lparr>st_nodes := map (\<lambda>_. []) (st_nodes t),
       st_placement_size := map (\<lambda>_. 0) (st_placement_size t),
       st_lo_rank := map (\<lambda>_. kInvalidRank) (st_lo_rank t),
       st_hi_rank := map (\<lambda>_. kInvalidRank) (st_hi_rank t)\<rparr>"

definition st_PlacementIndex :: "StabbingSegTree \<Rightarrow> nat \<Rightarrow> nat \<Rightarrow> nat" where
  "st_PlacementIndex t h b = h * st_max_refs t + b"

text \<open>\<open>AddToNode\<close>: the back reference is the handle's current placement count.\<close>

definition st_AddToNode :: "StabbingSegTree \<Rightarrow> nat \<Rightarrow> nat \<Rightarrow> StabbingSegTree" where
  "st_AddToNode t h node =
     (let sz = st_placement_size t ! h;
          bucket = st_nodes t ! node;
          pos = length bucket
      in t\<lparr>st_pos_in_node := (st_pos_in_node t)[st_PlacementIndex t h sz := pos],
           st_nodes := (st_nodes t)[node := bucket @ [\<lparr>handle = h, backref = sz\<rparr>]],
           st_placement_size := (st_placement_size t)[h := sz + 1]\<rparr>)"

definition st_RemoveFromNode :: "StabbingSegTree \<Rightarrow> nat \<Rightarrow> nat \<Rightarrow> StabbingSegTree" where
  "st_RemoveFromNode t node pos =
     (let bucket = st_nodes t ! node;
          last_pos = length bucket - 1
      in if pos \<noteq> last_pos
         then (let swapped = bucket ! last_pos
               in t\<lparr>st_pos_in_node :=
                      (st_pos_in_node t)[st_PlacementIndex t (handle swapped) (backref swapped) := pos],
                    st_nodes := (st_nodes t)[node := butlast (bucket[pos := swapped])]\<rparr>)
         else t\<lparr>st_nodes := (st_nodes t)[node := butlast bucket]\<rparr>)"

definition st_Insert :: "StabbingSegTree \<Rightarrow> nat \<Rightarrow> nat \<Rightarrow> nat \<Rightarrow> StabbingSegTree" where
  "st_Insert t h L0 R0 =
     (if R0 \<le> L0 \<or> st_m t = 0 then t
      else (let L1 = min L0 (st_m t); R1 = min R0 (st_m t)
            in if R1 \<le> L1 then t
               else (let t1 = t\<lparr>st_lo_rank := (st_lo_rank t)[h := L1],
                                st_hi_rank := (st_hi_rank t)[h := R1]\<rparr>
                     in fold (\<lambda>node u. st_AddToNode u h node)
                             (cover_nodes (u32 (L1 + st_p t)) (u32 (R1 + st_p t))) t1)))"

definition st_Erase :: "StabbingSegTree \<Rightarrow> nat \<Rightarrow> StabbingSegTree" where
  "st_Erase t h =
     (let sz = st_placement_size t ! h
      in if sz = 0 then t
         else (let L1 = st_lo_rank t ! h; R1 = st_hi_rank t ! h;
                   (t1, b) = fold (\<lambda>node (u, b).
                                     (st_RemoveFromNode u node
                                        (st_pos_in_node u ! st_PlacementIndex u h b), b + 1))
                                  (cover_nodes (u32 (L1 + st_p t)) (u32 (R1 + st_p t))) (t, 0)
               in t1\<lparr>st_placement_size := (st_placement_size t1)[h := 0],
                     st_lo_rank := (st_lo_rank t1)[h := kInvalidRank],
                     st_hi_rank := (st_hi_rank t1)[h := kInvalidRank]\<rparr>))"

definition st_Count :: "StabbingSegTree \<Rightarrow> nat \<Rightarrow> u64" where
  "st_Count t q =
     (if st_m t = 0 \<or> q \<ge> st_m t then 0
      else fold (\<lambda>node tot. tot + bucket_size (st_nodes t) node)
                (path_nodes (u32 (q + st_p t))) 0)"

definition st_Sample ::
  "StabbingSegTree \<Rightarrow> nat \<Rightarrow> nat \<Rightarrow> Rng \<Rightarrow> ((bool \<times> nat list) \<times> Rng) option" where
  "st_Sample t q k g =
     (if k = 0 then Some ((True, []), g)
      else if st_m t = 0 \<or> q \<ge> st_m t then Some ((False, []), g)
      else sample_buckets (st_nodes t) (path_nodes (u32 (q + st_p t))) k g)"


subsection \<open>ActiveIndex2D\<close>

record ActiveIndex2D =
  ai_n :: nat
  ai_m :: nat
  stab :: StabbingSegTree
  pts :: RangePointSegTree

definition ai_Init :: "nat \<Rightarrow> nat \<Rightarrow> ActiveIndex2D option" where
  "ai_Init num_handles num_ylo_ranks =
     (case st_Init num_handles num_ylo_ranks of
        None \<Rightarrow> None
      | Some st \<Rightarrow>
          (case rp_Init num_handles num_ylo_ranks of
             None \<Rightarrow> None
           | Some rp \<Rightarrow> Some \<lparr>ai_n = num_handles, ai_m = num_ylo_ranks, stab = st, pts = rp\<rparr>))"

definition ai_Clear :: "ActiveIndex2D" where
  "ai_Clear = \<lparr>ai_n = 0, ai_m = 0, stab = st_Clear, pts = rp_Clear\<rparr>"

definition ai_ResetActive :: "ActiveIndex2D \<Rightarrow> ActiveIndex2D" where
  "ai_ResetActive a = a\<lparr>stab := st_ResetActive (stab a), pts := rp_ResetActive (pts a)\<rparr>"

definition ai_Insert :: "ActiveIndex2D \<Rightarrow> nat \<Rightarrow> nat \<Rightarrow> nat \<Rightarrow> ActiveIndex2D" where
  "ai_Insert a h ylo_rank yhi_lb_rank =
     a\<lparr>stab := st_Insert (stab a) h ylo_rank yhi_lb_rank, pts := rp_Insert (pts a) h ylo_rank\<rparr>"

definition ai_Erase :: "ActiveIndex2D \<Rightarrow> nat \<Rightarrow> ActiveIndex2D" where
  "ai_Erase a h = a\<lparr>stab := st_Erase (stab a) h, pts := rp_Erase (pts a) h\<rparr>"

definition CountA :: "ActiveIndex2D \<Rightarrow> nat \<Rightarrow> u64" where
  "CountA a y_q_lo_rank = st_Count (stab a) y_q_lo_rank"

definition range_lo :: "ActiveIndex2D \<Rightarrow> nat \<Rightarrow> nat" where
  "range_lo a y_q_lo_rank =
     (if u32 (y_q_lo_rank + 1) \<le> ai_m a then u32 (y_q_lo_rank + 1) else ai_m a)"

definition CountB :: "ActiveIndex2D \<Rightarrow> nat \<Rightarrow> nat \<Rightarrow> u64" where
  "CountB a y_q_lo_rank y_q_hi_lb_rank =
     (if ai_m a = 0 then 0
      else rp_CountRange (pts a) (range_lo a y_q_lo_rank) (min y_q_hi_lb_rank (ai_m a)))"

definition SampleA ::
  "ActiveIndex2D \<Rightarrow> nat \<Rightarrow> nat \<Rightarrow> Rng \<Rightarrow> ((bool \<times> nat list) \<times> Rng) option" where
  "SampleA a y_q_lo_rank k g = st_Sample (stab a) y_q_lo_rank k g"

definition SampleB ::
  "ActiveIndex2D \<Rightarrow> nat \<Rightarrow> nat \<Rightarrow> nat \<Rightarrow> Rng \<Rightarrow> ((bool \<times> nat list) \<times> Rng) option" where
  "SampleB a y_q_lo_rank y_q_hi_lb_rank k g =
     rp_SampleRange (pts a) (range_lo a y_q_lo_rank) (min y_q_hi_lb_rank (ai_m a)) k g"



section \<open>The shared sweep context (Ours2DContext)\<close>

record 'a Ours2DContext =
  ctx_ds :: "'a Dataset option"
  ctx_built :: bool
  events :: "'a Event list"
  start_id_of_event :: "int list"
  start_event_pos :: "nat list"
  y_coords :: "'a list"
  ylo_rank_r :: "nat list"
  yhi_lb_rank_r :: "nat list"
  ylo_rank_s :: "nat list"
  yhi_lb_rank_s :: "nat list"
  active_r :: ActiveIndex2D
  active_s :: ActiveIndex2D

definition ctx_Reset :: "'a Ours2DContext" where
  "ctx_Reset = \<lparr>ctx_ds = None, ctx_built = False, events = [], start_id_of_event = [],
                start_event_pos = [], y_coords = [], ylo_rank_r = [], yhi_lb_rank_r = [],
                ylo_rank_s = [], yhi_lb_rank_s = [], active_r = ai_Clear, active_s = ai_Clear\<rparr>"

text \<open>Conversions between \<open>usize\<close>, \<open>i32\<close> and \<open>u32\<close>, as \<open>static_cast\<close> does them.\<close>

definition i32_of_nat :: "nat \<Rightarrow> int" where
  "i32_of_nat n = (if n mod 2 ^ 32 < 2 ^ 31 then int (n mod 2 ^ 32) else int (n mod 2 ^ 32) - 2 ^ 32)"

definition u32_of_int :: "int \<Rightarrow> nat" where
  "u32_of_int i = nat (i mod 2 ^ 32)"

definition u32_sub :: "nat \<Rightarrow> nat \<Rightarrow> nat" where
  "u32_sub a b = (a + 2 ^ 32 - b mod 2 ^ 32) mod 2 ^ 32"

text \<open>Step 2 of \<open>Build\<close>: the dense ids of the Start events, \<open>-1\<close> for End events.\<close>

definition start_id_step :: "'a Event list \<Rightarrow> nat \<Rightarrow> int list \<times> nat list \<Rightarrow> int list \<times> nat list" where
  "start_id_step evs i st =
     (case st of (sids, poss) \<Rightarrow>
        if kind (evs ! i) = Start then (sids[i := i32_of_nat (length poss)], poss @ [i])
        else (sids, poss))"

definition start_id_map :: "'a Event list \<Rightarrow> int list \<times> nat list" where
  "start_id_map evs = fold (start_id_step evs) [0..<length evs] (replicate (length evs) (- 1), [])"

text \<open>
  Step 3: the sorted, duplicate-free lower y endpoints (\<open>std::sort\<close>, then
  \<open>std::unique\<close>).  \<open>lb_rank\<close> is \<open>std::lower_bound\<close>: the number of entries
  below \<open>v\<close>.
\<close>

definition build_y_domain :: "('a::linorder) Dataset \<Rightarrow> 'a list" where
  "build_y_domain ds =
     remdups_adj (sort (map (\<lambda>b. lo b ! 1) (boxes (R ds)) @ map (\<lambda>b. lo b ! 1) (boxes (S ds))))"

definition lb_rank :: "('a::linorder) list \<Rightarrow> 'a \<Rightarrow> nat" where
  "lb_rank ys v = u32 (length (takeWhile (\<lambda>y. y < v) ys))"

definition ctx_Build :: "('a::linorder) Dataset \<Rightarrow> (string + 'a Ours2DContext) option" where
  "ctx_Build ds =
     (let nR = Size (R ds); nS = Size (S ds)
      in if nR > u32_max \<or> nS > u32_max
         then Some (Inl ''Ours2DContext: relation size exceeds u32'')
         else
           (let evs = BuildSweepEvents ds 0 RBeforeS;
                (sids, poss) = start_id_map evs;
                ys = build_y_domain ds
            in if ys = [] then Some (Inl ''Ours2DContext: empty y-domain'')
               else
                 (let m = u32 (length ys)
                  in case ai_Init (u32 nR) m of
                       None \<Rightarrow> None
                     | Some ar \<Rightarrow>
                         (case ai_Init (u32 nS) m of
                            None \<Rightarrow> None
                          | Some as \<Rightarrow>
                              Some (Inr \<lparr>ctx_ds = Some ds, ctx_built = True, events = evs,
                                start_id_of_event = sids, start_event_pos = poss,
                                y_coords = ys,
                                ylo_rank_r = map (\<lambda>b. lb_rank ys (lo b ! 1)) (boxes (R ds)),
                                yhi_lb_rank_r = map (\<lambda>b. lb_rank ys (hi b ! 1)) (boxes (R ds)),
                                ylo_rank_s = map (\<lambda>b. lb_rank ys (lo b ! 1)) (boxes (S ds)),
                                yhi_lb_rank_s = map (\<lambda>b. lb_rank ys (hi b ! 1)) (boxes (S ds)),
                                active_r = ai_ResetActive ar,
                                active_s = ai_ResetActive as\<rparr>)))))"


definition ctx_ResetActive :: "'a Ours2DContext \<Rightarrow> 'a Ours2DContext" where
  "ctx_ResetActive c =
     c\<lparr>active_r := ai_ResetActive (active_r c), active_s := ai_ResetActive (active_s c)\<rparr>"

definition num_start_events :: "'a Ours2DContext \<Rightarrow> nat" where
  "num_start_events c = length (start_event_pos c)"

section \<open>Framework II: OursSamplingBaseline\<close>

record CountResult =
  count_value :: u64
  exact :: bool

definition MakeExactCount :: "u64 \<Rightarrow> CountResult" where
  "MakeExactCount v = \<lparr>count_value = v, exact = True\<rparr>"

record SampleSet =
  pairs :: "PairId list"
  sample_weights :: "rat list"
  weighted :: bool
  with_replacement :: bool

definition SampleSet_Clear :: SampleSet where
  "SampleSet_Clear = \<lparr>pairs = [], sample_weights = [], weighted = False, with_replacement = True\<rparr>"

record 'a OursSamplingBaseline =
  sb_built :: bool
  sb_ctx :: "'a Ours2DContext"
  sb_w_total :: "u64 list"
  sb_w_a :: "u64 list"
  sb_w_b :: "u64 list"
  sb_W :: u64
  sb_weights_valid :: bool

text \<open>
  \<open>Reset\<close> overwrites every member.  \<open>Build\<close> resets the object first; when the
  context cannot be built the error is returned, and the object is then
  \<open>sb_Build_failed\<close>: reset, with the context as the failing \<open>Build\<close> left it.
\<close>

definition sb_Reset :: "'a OursSamplingBaseline \<Rightarrow> 'a OursSamplingBaseline" where
  "sb_Reset b = \<lparr>sb_built = False, sb_ctx = ctx_Reset, sb_w_total = [], sb_w_a = [], sb_w_b = [],
                 sb_W = 0, sb_weights_valid = False\<rparr>"

text \<open>The default-constructed object: the member initialisers of the class.\<close>

definition sb_Init :: "'a OursSamplingBaseline" where
  "sb_Init = \<lparr>sb_built = False, sb_ctx = ctx_Reset, sb_w_total = [], sb_w_a = [], sb_w_b = [],
              sb_W = 0, sb_weights_valid = False\<rparr>"

definition sb_Build ::
  "('a::linorder) OursSamplingBaseline \<Rightarrow> 'a Dataset \<Rightarrow> (string + 'a OursSamplingBaseline) option" where
  "sb_Build b ds =
     (let b0 = sb_Reset b
      in case ctx_Build ds of
           None \<Rightarrow> None
         | Some (Inl e) \<Rightarrow> Some (Inl e)
         | Some (Inr c) \<Rightarrow>
             (let E = num_start_events c
              in Some (Inr (b0\<lparr>sb_ctx := c, sb_w_total := replicate E 0,
                               sb_w_a := replicate E 0, sb_w_b := replicate E 0,
                               sb_built := True\<rparr>))))"


text \<open>
  One iteration of the sweep of \<open>Count\<close>; the running sum \<open>W\<close> is a local of the source
  and is threaded next to the object.  The addition \<open>W += w\<close> is the plain \<open>u64\<close>
  addition.
\<close>

definition sb_Count_step ::
  "nat \<Rightarrow> 'a OursSamplingBaseline \<times> u64 \<Rightarrow> 'a OursSamplingBaseline \<times> u64" where
  "sb_Count_step pos st =
     (case st of (b, W) \<Rightarrow>
      (let c = sb_ctx b;
           ev = events c ! pos;
           h = u32 (index ev)
       in if kind ev = End
          then (if side ev = SideR
                then (b\<lparr>sb_ctx := c\<lparr>active_r := ai_Erase (active_r c) h\<rparr>\<rparr>, W)
                else (b\<lparr>sb_ctx := c\<lparr>active_s := ai_Erase (active_s c) h\<rparr>\<rparr>, W))
          else
            (let sid = u32_of_int (start_id_of_event c ! pos);
                 q_is_r = (side ev = SideR);
                 q_ylo = (if q_is_r then ylo_rank_r c ! index ev else ylo_rank_s c ! index ev);
                 q_yhi = (if q_is_r then yhi_lb_rank_r c ! index ev else yhi_lb_rank_s c ! index ev);
                 other = (if q_is_r then active_s c else active_r c);
                 wa = CountA other q_ylo;
                 wb = CountB other q_ylo q_yhi;
                 w = wa + wb;
                 b1 = b\<lparr>sb_w_a := (sb_w_a b)[sid := wa], sb_w_b := (sb_w_b b)[sid := wb],
                        sb_w_total := (sb_w_total b)[sid := w]\<rparr>;
                 c1 = (if q_is_r then c\<lparr>active_r := ai_Insert (active_r c) h q_ylo q_yhi\<rparr>
                       else c\<lparr>active_s := ai_Insert (active_s c) h q_ylo q_yhi\<rparr>)
             in (b1\<lparr>sb_ctx := c1\<rparr>, W + w))))"

definition sb_Count ::
  "'a OursSamplingBaseline \<Rightarrow> string + (CountResult \<times> 'a OursSamplingBaseline)" where
  "sb_Count b =
     (if \<not> sb_built b \<or> \<not> ctx_built (sb_ctx b) \<or> ctx_ds (sb_ctx b) = None
      then Inl ''OursSamplingBaseline::Count: call Build() first''
      else
        (let b0 = b\<lparr>sb_w_total := map (\<lambda>_. 0) (sb_w_total b),
                     sb_w_a := map (\<lambda>_. 0) (sb_w_a b),
                     sb_w_b := map (\<lambda>_. 0) (sb_w_b b),
                     sb_ctx := ctx_ResetActive (sb_ctx b)\<rparr>;
             (b1, W) = fold sb_Count_step [0..<length (events (sb_ctx b0))] (b0, 0);
             b2 = b1\<lparr>sb_ctx := ctx_ResetActive (sb_ctx b1), sb_W := W, sb_weights_valid := True\<rparr>
         in Inr (MakeExactCount W, b2)))"

section \<open>The alias table (sjs/sampling/alias_table.h)\<close>

text \<open>
  The table stores thresholds computed in \<open>long double\<close> and \<open>double\<close>.  They are
  modelled by exact rational arithmetic, the real-number model in which the
  specification states the table's contract; rounding is not modelled.  Which index a draw
  returns can depend on rounding; that the index is below \<open>n_\<close> cannot.
\<close>

record AliasTable =
  prob :: "rat list"
  alias_idx :: "nat list"
  at_n :: nat
  total_weight :: rat
  uniform_fallback :: bool

definition at_Clear :: AliasTable where
  "at_Clear = \<lparr>prob = [], alias_idx = [], at_n = 0, total_weight = 0, uniform_fallback = False\<rparr>"

text \<open>
  The main loop of Vose's construction, on the stacks \<open>small\<close> and \<open>large\<close>
  (\<open>back()\<close> is \<open>last\<close>, \<open>pop_back()\<close> is \<open>butlast\<close>).
\<close>

function vose_loop ::
  "rat list \<Rightarrow> rat list \<Rightarrow> nat list \<Rightarrow> nat list \<Rightarrow> nat list
     \<Rightarrow> rat list \<times> nat list \<times> nat list \<times> nat list" where
  "vose_loop scaled pr al small large =
     (if small \<noteq> [] \<and> large \<noteq> []
      then
        (if (scaled ! last large + scaled ! last small) - 1 < 1
         then vose_loop (scaled[last large := (scaled ! last large + scaled ! last small) - 1])
                (pr[last small := scaled ! last small]) (al[last small := last large])
                (butlast small @ [last large]) (butlast large)
         else vose_loop (scaled[last large := (scaled ! last large + scaled ! last small) - 1])
                (pr[last small := scaled ! last small]) (al[last small := last large])
                (butlast small) (butlast large @ [last large]))
      else (pr, al, small, large))"
  by pat_completeness auto
termination
  by (relation "measure (\<lambda>(scaled, pr, al, small, large). length small + length large)")
     (auto simp: less_Suc_eq_le intro: le_imp_less_Suc)

declare vose_loop.simps [simp del]

definition set_identity :: "nat list \<Rightarrow> rat list \<times> nat list \<Rightarrow> rat list \<times> nat list" where
  "set_identity idxs pa = fold (\<lambda>i (pr, al). (pr[i := 1], al[i := i])) idxs pa"

definition clamp_table :: "nat \<Rightarrow> rat list \<times> nat list \<Rightarrow> rat list \<times> nat list" where
  "clamp_table n pa =
     fold (\<lambda>i (pr, al).
             (let pr1 = (if pr ! i < 0 then pr[i := 0] else pr);
                  pr2 = (if pr1 ! i > 1 then pr1[i := 1] else pr1);
                  al1 = (if al ! i \<ge> n then al[i := u32 i] else al)
              in (pr2, al1)))
          [0..<n] pa"

definition BuildFromU64 :: "u64 list \<Rightarrow> string + AliasTable" where
  "BuildFromU64 weights =
     (let n = length weights
      in if n = 0 then Inr at_Clear
         else if n > u32_max
         then Inl ''AliasTable::BuildFromU64: n too large for u32 alias indices''
         else
           (let sum128 = sum_list (map unat weights)
            in if sum128 = 0
               then Inr \<lparr>prob = replicate n 1, alias_idx = map u32 [0..<n], at_n = n,
                         total_weight = 0, uniform_fallback = True\<rparr>
               else
                 (let scaled = map (\<lambda>w. of_nat (unat w) * of_nat n / of_nat sum128) weights;
                      small = filter (\<lambda>i. scaled ! i < 1) [0..<n];
                      large = filter (\<lambda>i. \<not> scaled ! i < 1) [0..<n];
                      (pr1, al1, small1, large1) =
                         vose_loop scaled (replicate n 1) (replicate n 0) small large;
                      (pr2, al2) = clamp_table n (set_identity small1 (set_identity large1 (pr1, al1)))
                  in Inr \<lparr>prob = pr2, alias_idx = al2, at_n = n,
                           total_weight = of_nat sum128, uniform_fallback = False\<rparr>)))"

definition at_Sample :: "AliasTable \<Rightarrow> Rng \<Rightarrow> (nat \<times> Rng) option" where
  "at_Sample tab g =
     (case UniformU64 g (word_of_nat (at_n tab)) of
        None \<Rightarrow> None
      | Some (v, g1) \<Rightarrow>
          if uniform_fallback tab then Some (unat v, g1)
          else (let i = unat v; (u, g2) = NextDouble g1
                in Some (if u < prob tab ! i then i else alias_idx tab ! i, g2)))"

section \<open>The slot plan (BuildSlotPlan2D)\<close>

record SlotPlan2D =
  offset_a :: "nat list"
  offset_b :: "nat list"
  slots_a :: "nat list"
  slots_b :: "nat list"

text \<open>The pattern of a slot, conditional on its event: \<open>0\<close> is A, \<open>1\<close> is B.\<close>

definition choose_pattern :: "u64 \<Rightarrow> u64 \<Rightarrow> Rng \<Rightarrow> (nat \<times> Rng) option" where
  "choose_pattern wa wb g =
     (if wa = 0 then Some (1, g)
      else if wb = 0 then Some (0, g)
      else (case UniformU64 g (wa + wb) of
              None \<Rightarrow> None
            | Some (r, g') \<Rightarrow> Some (if r < wa then 0 else 1, g')))"

text \<open>
  First pass: slot \<open>j\<close> draws its event and its pattern and bumps the event's counter.
  The state is \<open>(eid_of_slot, pat_of_slot, cnt_a, cnt_b)\<close> and the generator.
\<close>

fun assign_slots ::
  "AliasTable \<Rightarrow> u64 list \<Rightarrow> u64 list \<Rightarrow> nat list
     \<Rightarrow> (nat list \<times> nat list \<times> nat list \<times> nat list) \<times> Rng
     \<Rightarrow> ((nat list \<times> nat list \<times> nat list \<times> nat list) \<times> Rng) option" where
  "assign_slots tab w_a w_b [] st = Some st"
| "assign_slots tab w_a w_b (j # js) st =
     (case st of ((eids, pats, cnt_a, cnt_b), g) \<Rightarrow>
        (case at_Sample tab g of
           None \<Rightarrow> None
         | Some (i, g1) \<Rightarrow>
             (let e = u32 i
              in case choose_pattern (w_a ! e) (w_b ! e) g1 of
                   None \<Rightarrow> None
                 | Some (pat, g2) \<Rightarrow>
                     assign_slots tab w_a w_b js
                       ((eids[j := e], pats[j := pat],
                         (if pat = 0 then cnt_a[e := u32 (cnt_a ! e + 1)] else cnt_a),
                         (if pat = 0 then cnt_b else cnt_b[e := u32 (cnt_b ! e + 1)])), g2))))"

text \<open>Prefix sums of the counters.\<close>

definition prefix_offsets :: "nat list \<Rightarrow> nat list" where
  "prefix_offsets cnt =
     fold (\<lambda>e off. off[e + 1 := u32 (off ! e + cnt ! e)]) [0..<length cnt]
          (replicate (length cnt + 1) 0)"

text \<open>
  Second pass: slot \<open>j\<close> is written at the cursor of its event and pattern.  The state
  is \<open>(slots_a, slots_b, cur_a, cur_b)\<close>.
\<close>

definition fill_step ::
  "nat list \<Rightarrow> nat list \<Rightarrow> nat
     \<Rightarrow> nat list \<times> nat list \<times> nat list \<times> nat list
     \<Rightarrow> nat list \<times> nat list \<times> nat list \<times> nat list" where
  "fill_step eids pats j st =
     (case st of (sa, sb, cur_a, cur_b) \<Rightarrow>
        (let e = eids ! j
         in if pats ! j = 0
            then (sa[cur_a ! e := j], sb, cur_a[e := u32 (cur_a ! e + 1)], cur_b)
            else (sa, sb[cur_b ! e := j], cur_a, cur_b[e := u32 (cur_b ! e + 1)])))"

definition BuildSlotPlan2D ::
  "nat \<Rightarrow> Rng \<Rightarrow> u64 list \<Rightarrow> u64 list \<Rightarrow> u64 list \<Rightarrow> ((string + SlotPlan2D) \<times> Rng) option" where
  "BuildSlotPlan2D t g w_total w_a w_b =
     (let E = length w_total
      in if E = 0 then Some (Inl ''BuildSlotPlan2D: empty event set'', g)
         else
           (case BuildFromU64 w_total of
              Inl e \<Rightarrow> Some (Inl e, g)
            | Inr tab \<Rightarrow>
                (case assign_slots tab w_a w_b [0..<t]
                        ((replicate t 0, replicate t 0, replicate E 0, replicate E 0), g) of
                   None \<Rightarrow> None
                 | Some ((eids, pats, cnt_a, cnt_b), g') \<Rightarrow>
                     (let off_a = prefix_offsets cnt_a;
                          off_b = prefix_offsets cnt_b;
                          total_a = off_a ! E;
                          total_b = off_b ! E;
                          (sa, sb, cur_a, cur_b) =
                             fold (fill_step eids pats) [0..<t]
                                  (replicate total_a 0, replicate total_b 0, off_a, off_b)
                      in Some (Inr \<lparr>offset_a = off_a, offset_b = off_b,
                                     slots_a = sa, slots_b = sb\<rparr>, g')))))"

section \<open>Framework II: Sample\<close>

text \<open>
  The part of \<open>Config\<close> the drivers read: \<open>run.t\<close>, \<open>run.j_star\<close>, and the
  entries \<open>budget\<close> and \<open>w_small\<close> of \<open>run.extra\<close> as \<open>ParseU64\<close> reads them
  (\<open>None\<close> when the key is absent or does not parse).
\<close>

record Config =
  run_t :: nat
  run_j_star :: nat
  extra_budget :: "nat option"
  extra_w_small :: "nat option"

text \<open>
  Writing the sampled partners of one pattern of one Start event into their slots.
  \<open>begin\<close> is the event's offset in the plan.
\<close>

definition write_pairs ::
  "'a Dataset \<Rightarrow> bool \<Rightarrow> nat \<Rightarrow> nat list \<Rightarrow> nat \<Rightarrow> nat list \<Rightarrow> nat \<Rightarrow> PairId list \<Rightarrow> PairId list" where
  "write_pairs ds q_is_r q_index slots begin sampled k prs =
     fold (\<lambda>i out.
             out[slots ! u32 (begin + i) :=
                   (if q_is_r then (GetId (R ds) q_index, GetId (S ds) (sampled ! i))
                    else (GetId (R ds) (sampled ! i), GetId (S ds) q_index))])
          [0..<k] prs"

text \<open>
  One pattern of one Start event in the second sweep: \<open>k\<close> is the number of slots;
  with \<open>k = 0\<close> nothing is drawn.  \<open>Inl\<close> is the failure of the sub-sampler.
\<close>

definition fill_pattern ::
  "'a Dataset \<Rightarrow> bool \<Rightarrow> nat \<Rightarrow> nat list \<Rightarrow> nat list \<Rightarrow> nat
     \<Rightarrow> (nat \<Rightarrow> Rng \<Rightarrow> ((bool \<times> nat list) \<times> Rng) option) \<Rightarrow> string
     \<Rightarrow> PairId list \<Rightarrow> Rng \<Rightarrow> ((string + PairId list) \<times> Rng) option" where
  "fill_pattern ds q_is_r q_index offs slots sid sampler msg prs g =
     (let begin = offs ! sid;
          end' = offs ! (sid + 1);
          k = u32_sub end' begin
      in if k > 0
         then (case sampler k g of
                 None \<Rightarrow> None
               | Some ((ok, sampled), g') \<Rightarrow>
                   if \<not> ok \<or> length sampled \<noteq> k then Some (Inl msg, g')
                   else Some (Inr (write_pairs ds q_is_r q_index slots begin sampled k prs), g'))
         else Some (Inr prs, g))"

text \<open>
  One event of the second sweep.  The state is the context (with its active indices), the
  output pairs and the generator.
\<close>

definition sb_Sample_step ::
  "'a Dataset \<Rightarrow> SlotPlan2D \<Rightarrow> nat \<Rightarrow> 'a Ours2DContext \<times> PairId list \<times> Rng
     \<Rightarrow> ((string + 'a Ours2DContext \<times> PairId list) \<times> Rng) option" where
  "sb_Sample_step ds plan pos st =
     (case st of (c, prs, g) \<Rightarrow>
      (let ev = events c ! pos;
           h = u32 (index ev)
       in if kind ev = End
          then (if side ev = SideR
                then Some (Inr (c\<lparr>active_r := ai_Erase (active_r c) h\<rparr>, prs), g)
                else Some (Inr (c\<lparr>active_s := ai_Erase (active_s c) h\<rparr>, prs), g))
          else
            (let sid = u32_of_int (start_id_of_event c ! pos);
                 q_is_r = (side ev = SideR);
                 q_ylo = (if q_is_r then ylo_rank_r c ! index ev else ylo_rank_s c ! index ev);
                 q_yhi = (if q_is_r then yhi_lb_rank_r c ! index ev else yhi_lb_rank_s c ! index ev);
                 other = (if q_is_r then active_s c else active_r c)
             in case fill_pattern ds q_is_r (index ev) (offset_a plan) (slots_a plan) sid
                       (SampleA other q_ylo)
                       ''OursSamplingBaseline::Sample: SampleA failed (inconsistent weights)'' prs g of
                  None \<Rightarrow> None
                | Some (Inl e, g1) \<Rightarrow> Some (Inl e, g1)
                | Some (Inr prs1, g1) \<Rightarrow>
                    (case fill_pattern ds q_is_r (index ev) (offset_b plan) (slots_b plan) sid
                            (SampleB other q_ylo q_yhi)
                            ''OursSamplingBaseline::Sample: SampleB failed (inconsistent weights)'' prs1 g1 of
                       None \<Rightarrow> None
                     | Some (Inl e, g2) \<Rightarrow> Some (Inl e, g2)
                     | Some (Inr prs2, g2) \<Rightarrow>
                         Some (Inr ((if q_is_r
                                     then c\<lparr>active_r := ai_Insert (active_r c) h q_ylo q_yhi\<rparr>
                                     else c\<lparr>active_s := ai_Insert (active_s c) h q_ylo q_yhi\<rparr>),
                                    prs2), g2)))))"

text \<open>The loop over the event positions; a failure or a non-returning draw ends it.\<close>

fun sweep_loop ::
  "(nat \<Rightarrow> 'st \<times> Rng \<Rightarrow> ((string + 'st) \<times> Rng) option) \<Rightarrow> nat list \<Rightarrow> 'st \<times> Rng
     \<Rightarrow> ((string + 'st) \<times> Rng) option" where
  "sweep_loop step [] st = Some (Inr (fst st), snd st)"
| "sweep_loop step (pos # rest) st =
     (case step pos st of
        None \<Rightarrow> None
      | Some (Inl e, g) \<Rightarrow> Some (Inl e, g)
      | Some (Inr s', g) \<Rightarrow> sweep_loop step rest (s', g))"

text \<open>
  \<open>Sample\<close>.  The result is the error or the sample set, the object and the generator.
  The pointers \<open>rng\<close> and \<open>out\<close> are never null in the model.
\<close>

definition sb_Sample ::
  "'a OursSamplingBaseline \<Rightarrow> Config \<Rightarrow> Rng
     \<Rightarrow> ((string + SampleSet) \<times> 'a OursSamplingBaseline \<times> Rng) option" where
  "sb_Sample b cfg g =
     (if \<not> sb_built b \<or> \<not> ctx_built (sb_ctx b) \<or> ctx_ds (sb_ctx b) = None
      then Some (Inl ''OursSamplingBaseline::Sample: call Build() first'', b, g)
      else if run_t cfg > u32_max
      then Some (Inl ''OursSamplingBaseline::Sample: run.t too large (must fit in u32)'', b, g)
      else
        (let t = u32 (run_t cfg);
             out = SampleSet_Clear\<lparr>with_replacement := True, weighted := False\<rparr>
         in if t = 0 then Some (Inr out, b, g)
            else
              (case (if \<not> sb_weights_valid b
                     then (case sb_Count b of Inl e \<Rightarrow> Inl e | Inr (cr, b') \<Rightarrow> Inr b')
                     else Inr b) of
                 Inl e \<Rightarrow> Some (Inl e, b, g)
               | Inr b1 \<Rightarrow>
                   if sb_W b1 = 0 then Some (Inr out, b1, g)
                   else
                     (case BuildSlotPlan2D t g (sb_w_total b1) (sb_w_a b1) (sb_w_b b1) of
                        None \<Rightarrow> None
                      | Some (Inl e, g1) \<Rightarrow> Some (Inl e, b1, g1)
                      | Some (Inr plan, g1) \<Rightarrow>
                          (let c0 = ctx_ResetActive (sb_ctx b1);
                               ds = the (ctx_ds c0)
                           in case sweep_loop
                                     (\<lambda>pos (st, g). sb_Sample_step ds plan pos (fst st, snd st, g))
                                     [0..<length (events c0)] ((c0, replicate t (0, 0)), g1) of
                                None \<Rightarrow> None
                              | Some (Inl e, g2) \<Rightarrow> Some (Inl e, b1, g2)
                              | Some (Inr (c1, prs), g2) \<Rightarrow>
                                  Some (Inr (out\<lparr>pairs := prs\<rparr>),
                                        b1\<lparr>sb_ctx := ctx_ResetActive c1\<rparr>, g2))))))"

section \<open>The runner (sjs/baselines/runners/sampling_runner.h)\<close>


record RunReport =
  ok :: bool
  error :: string
  rr_seed :: u64
  rr_t :: nat
  rr_count :: "CountResult option"
  samples :: SampleSet



section \<open>Framework III: OursAdaptiveBaseline (sjs/baselines/ours/adaptive.h)\<close>





















subsection \<open>Sample of the adaptive driver\<close>














section \<open>Invariants of the sweep structures\<close>

definition cover_cnt :: "nat \<Rightarrow> (nat \<times> nat) option \<Rightarrow> nat \<Rightarrow> nat" where
  "cover_cnt p e node =
     (case e of None \<Rightarrow> 0 | Some (L, U) \<Rightarrow> count_list (cover_nodes (L + p) (U + p)) node)"

definition st_inv :: "StabbingSegTree \<Rightarrow> (nat \<Rightarrow> (nat \<times> nat) option) \<Rightarrow> bool" where
  "st_inv t A \<longleftrightarrow>
     length (st_nodes t) = 2 * st_p t \<and> (\<exists>k. st_p t = 2 ^ k) \<and> st_p t \<le> 2 ^ 30 \<and>
     0 < st_m t \<and> st_m t \<le> st_p t \<and>
     length (st_placement_size t) = st_n_handles t \<and>
     length (st_lo_rank t) = st_n_handles t \<and>
     length (st_hi_rank t) = st_n_handles t \<and>
     (\<forall>h < st_n_handles t.
        case A h of
          None \<Rightarrow> st_placement_size t ! h = 0
        | Some (L, U) \<Rightarrow> L < U \<and> U \<le> st_m t \<and> 0 < st_placement_size t ! h \<and>
                         st_lo_rank t ! h = L \<and> st_hi_rank t ! h = U) \<and>
     (\<forall>node < 2 * st_p t.
        length (st_nodes t ! node) = (\<Sum>h < st_n_handles t. cover_cnt (st_p t) (A h) node))"

definition path_cnt :: "nat \<Rightarrow> nat option \<Rightarrow> nat \<Rightarrow> nat" where
  "path_cnt p e node =
     (case e of None \<Rightarrow> 0 | Some rk \<Rightarrow> count_list (path_nodes (rk + p)) node)"

definition rp_inv :: "RangePointSegTree \<Rightarrow> (nat \<Rightarrow> nat option) \<Rightarrow> bool" where
  "rp_inv t B \<longleftrightarrow>
     length (rp_nodes t) = 2 * rp_p t \<and> (\<exists>k. rp_p t = 2 ^ k) \<and> rp_p t \<le> 2 ^ 30 \<and>
     0 < rp_m t \<and> rp_m t \<le> rp_p t \<and>
     length (rp_placement_size t) = rp_n_handles t \<and>
     length (rp_rank_of_handle t) = rp_n_handles t \<and>
     (\<forall>h < rp_n_handles t.
        case B h of
          None \<Rightarrow> rp_placement_size t ! h = 0
        | Some rk \<Rightarrow> rk < rp_m t \<and> rp_placement_size t ! h = length (path_nodes (rk + rp_p t)) \<and>
                     rp_rank_of_handle t ! h = rk) \<and>
     (\<forall>node < 2 * rp_p t.
        length (rp_nodes t ! node) = (\<Sum>h < rp_n_handles t. path_cnt (rp_p t) (B h) node))"

definition ai_inv :: "ActiveIndex2D \<Rightarrow> (nat \<Rightarrow> (nat \<times> nat) option) \<Rightarrow> bool" where
  "ai_inv a A \<longleftrightarrow>
     st_inv (stab a) A \<and> rp_inv (pts a) (\<lambda>h. map_option fst (A h)) \<and>
     st_m (stab a) = ai_m a \<and> rp_m (pts a) = ai_m a \<and>
     st_n_handles (stab a) = ai_n a \<and> rp_n_handles (pts a) = ai_n a \<and> ai_m a \<le> 2 ^ 30"

fun rel_of :: "'a Dataset \<Rightarrow> Side \<Rightarrow> 'a Relation" where
  "rel_of ds SideR = R ds"
| "rel_of ds SideS = S ds"

definition startE :: "'a Dataset \<Rightarrow> Side \<Rightarrow> nat \<Rightarrow> 'a Event" where
  "startE ds sd i = \<lparr>ex = lo (boxes (rel_of ds sd) ! i) ! 0, kind = Start, side = sd,
                    eid = GetId (rel_of ds sd) i, index = i\<rparr>"

definition endE :: "'a Dataset \<Rightarrow> Side \<Rightarrow> nat \<Rightarrow> 'a Event" where
  "endE ds sd i = \<lparr>ex = hi (boxes (rel_of ds sd) ! i) ! 0, kind = End, side = sd,
                  eid = GetId (rel_of ds sd) i, index = i\<rparr>"

definition rankLo :: "('a::linorder) Dataset \<Rightarrow> Side \<Rightarrow> nat \<Rightarrow> nat" where
  "rankLo ds sd h = lb_rank (build_y_domain ds) (lo (boxes (rel_of ds sd) ! h) ! 1)"

definition rankHi :: "('a::linorder) Dataset \<Rightarrow> Side \<Rightarrow> nat \<Rightarrow> nat" where
  "rankHi ds sd h = lb_rank (build_y_domain ds) (hi (boxes (rel_of ds sd) ! h) ! 1)"

definition actmap :: "('a::linorder) Dataset \<Rightarrow> 'a Event set \<Rightarrow> Side \<Rightarrow> nat \<Rightarrow> (nat \<times> nat) option" where
  "actmap ds P sd h =
     (if h < Size (rel_of ds sd) \<and> startE ds sd h \<in> P \<and> endE ds sd h \<notin> P
      then Some (rankLo ds sd h, rankHi ds sd h) else None)"

definition joinP :: "('a::linorder) Dataset \<Rightarrow> 'a Event set \<Rightarrow> nat" where
  "joinP ds P =
     (\<Sum>i < Size (R ds). \<Sum>j < Size (S ds).
        if Intersects (boxes (R ds) ! i) (boxes (S ds) ! j) \<and>
           startE ds SideR i \<in> P \<and> startE ds SideS j \<in> P then 1 else 0)"

definition ctx_tables :: "('a::linorder) Dataset \<Rightarrow> 'a Ours2DContext \<Rightarrow> bool" where
  "ctx_tables ds c \<longleftrightarrow>
     events c = BuildSweepEvents ds 0 RBeforeS \<and>
     ylo_rank_r c = map (rankLo ds SideR) [0..<Size (R ds)] \<and>
     yhi_lb_rank_r c = map (rankHi ds SideR) [0..<Size (R ds)] \<and>
     ylo_rank_s c = map (rankLo ds SideS) [0..<Size (S ds)] \<and>
     yhi_lb_rank_s c = map (rankHi ds SideS) [0..<Size (S ds)] \<and>
     ai_n (active_r c) = Size (R ds) \<and> ai_m (active_r c) = length (build_y_domain ds) \<and>
     ai_n (active_s c) = Size (S ds) \<and> ai_m (active_s c) = length (build_y_domain ds)"

definition sweep_inv ::
  "('a::linorder) Dataset \<Rightarrow> 'a Event set \<Rightarrow> 'a OursSamplingBaseline \<times> u64 \<Rightarrow> bool" where
  "sweep_inv ds P st \<longleftrightarrow>
     (case st of (b, W) \<Rightarrow>
        ctx_tables ds (sb_ctx b) \<and>
        ai_inv (active_r (sb_ctx b)) (actmap ds P SideR) \<and>
        ai_inv (active_s (sb_ctx b)) (actmap ds P SideS) \<and>
        W = word_of_nat (joinP ds P))"

definition sb_ready :: "('a::linorder) Dataset \<Rightarrow> 'a OursSamplingBaseline \<Rightarrow> bool" where
  "sb_ready ds b \<longleftrightarrow>
     sb_built b \<and> ctx_built (sb_ctx b) \<and> ctx_ds (sb_ctx b) = Some ds \<and>
     ctx_tables ds (sb_ctx b) \<and>
     ai_inv (active_r (sb_ctx b)) (\<lambda>_. None) \<and> ai_inv (active_s (sb_ctx b)) (\<lambda>_. None)"

text \<open>The weight that pass 1 computes for the Start event at position \<open>pos\<close>.\<close>

definition start_weight :: "'a Ours2DContext \<Rightarrow> nat \<Rightarrow> u64" where
  "start_weight c pos =
     (let ev = events c ! pos;
          q_is_r = (side ev = SideR);
          q_ylo = (if q_is_r then ylo_rank_r c ! index ev else ylo_rank_s c ! index ev);
          q_yhi = (if q_is_r then yhi_lb_rank_r c ! index ev else yhi_lb_rank_s c ! index ev);
          other = (if q_is_r then active_s c else active_r c)
      in CountA other q_ylo + CountB other q_ylo q_yhi)"

section \<open>The event order\<close>

lemma kind_u8_inj: "kind_u8 a = kind_u8 b \<longleftrightarrow> a = b"
  by (cases a; cases b) auto

lemma side_rank_inj: "side_rank tb a = side_rank tb b \<longleftrightarrow> a = b"
  by (cases a; cases b; cases tb) (auto simp: side_rank_def)

lemma side_rank_less: "side_rank tb a < side_rank tb b \<longleftrightarrow> IsFirst tb a b"
  by (cases a; cases b; cases tb) (auto simp: side_rank_def IsFirst_def)

lemma EventLess_spec: "EventLess tb a b = spec_event_less tb a b"
proof -
  have k: "kind a = kind b \<longleftrightarrow> kind_u8 (kind a) = kind_u8 (kind b)"
    by (simp add: kind_u8_inj)
  have s: "side a = side b \<longleftrightarrow> side_rank tb (side a) = side_rank tb (side b)"
    by (simp add: side_rank_inj)
  have f: "IsFirst tb (side a) (side b) \<longleftrightarrow> side_rank tb (side a) < side_rank tb (side b)"
    by (simp add: side_rank_less)
  show ?thesis
    unfolding EventLess_def spec_event_less_def k s f by auto
qed

lemma EventLess_key: "EventLess tb a b \<longleftrightarrow> event_key tb a < event_key tb b"
proof -
  have k: "kind a = kind b \<longleftrightarrow> kind_u8 (kind a) = kind_u8 (kind b)"
    by (simp add: kind_u8_inj)
  have s: "side a = side b \<longleftrightarrow> side_rank tb (side a) = side_rank tb (side b)"
    by (simp add: side_rank_inj)
  show ?thesis
    unfolding EventLess_spec spec_event_less_def event_key_def k s less_prod_def
    by auto
qed

lemma event_key_inj:
  fixes a b :: "('a::linorder) Event"
  shows "event_key tb a = event_key tb b \<longleftrightarrow> a = b"
  by (cases a; cases b) (auto simp: event_key_def kind_u8_inj side_rank_inj)

lemma EventLess_total:
  fixes a b :: "('a::linorder) Event"
  shows "a \<noteq> b \<Longrightarrow> EventLess tb a b \<or> EventLess tb b a"
  using event_key_inj[of tb a b] by (auto simp: EventLess_key)

lemma insort_by_key:
  fixes e :: "('a::linorder) Event"
  shows "insort_by (EventLess tb) e xs = insort_key (event_key tb) e xs"
  by (induction xs) (auto simp: EventLess_key)

lemma SortSweepEvents_sort_key:
  fixes evs :: "('a::linorder) Event list"
  shows "SortSweepEvents tb evs = sort_key (event_key tb) evs"
  unfolding SortSweepEvents_def sort_by_def sort_key_def
  by (induction evs) (simp_all add: insort_by_key)

lemma sorted_SortSweepEvents:
  fixes evs :: "('a::linorder) Event list"
  shows "sorted_wrt (\<lambda>a b. \<not> EventLess tb b a) (SortSweepEvents tb evs)"
proof -
  have "sorted (map (event_key tb) (sort_key (event_key tb) evs))" by simp
  then show ?thesis
    unfolding SortSweepEvents_sort_key sorted_map
    by (simp add: EventLess_key not_less)
qed

lemma strict_sorted_SortSweepEvents:
  fixes evs :: "('a::linorder) Event list"
  assumes "distinct evs"
  shows "sorted_wrt (EventLess tb) (SortSweepEvents tb evs)"
proof -
  have d: "distinct (map (event_key tb) (sort_key (event_key tb) evs))"
    using assms by (simp add: distinct_map inj_on_def event_key_inj)
  have "sorted (map (event_key tb) (sort_key (event_key tb) evs))" by simp
  with d have "sorted_wrt (<) (map (event_key tb) (sort_key (event_key tb) evs))"
    by (simp add: strict_sorted_iff)
  then show ?thesis
    unfolding SortSweepEvents_sort_key sorted_wrt_map
    by (simp add: EventLess_key [abs_def])
qed

text \<open>The events of one relation: every event carries its side and a valid index.\<close>

lemma box_events_cases:
  "e \<in> set (box_events rel sd axis i) \<Longrightarrow>
     side e = sd \<and> index e = i \<and> eid e = GetId rel i \<and>
     lo (boxes rel ! i) ! axis < hi (boxes rel ! i) ! axis \<and>
     (kind e = Start \<and> ex e = lo (boxes rel ! i) ! axis \<or>
      kind e = End \<and> ex e = hi (boxes rel ! i) ! axis)"
  by (auto simp: box_events_def Let_def split: if_splits)

lemma distinct_box_events: "distinct (box_events rel sd axis i)"
  by (simp add: box_events_def Let_def)

lemma relation_events_index:
  "e \<in> set (concat (map (box_events rel sd axis) [0..<n])) \<Longrightarrow> index e < n \<and> side e = sd"
  by (auto dest: box_events_cases)

lemma distinct_relation_events:
  "distinct (concat (map (box_events rel sd axis) [0..<n]))"
proof (induction n)
  case 0
  show ?case by simp
next
  case (Suc n)
  have "set (concat (map (box_events rel sd axis) [0..<n])) \<inter> set (box_events rel sd axis n) = {}"
  proof -
    have "index e < n" if "e \<in> set (concat (map (box_events rel sd axis) [0..<n]))" for e
      using relation_events_index[OF that] by simp
    moreover have "index e = n" if "e \<in> set (box_events rel sd axis n)" for e
      using box_events_cases[OF that] by simp
    ultimately show ?thesis by fastforce
  qed
  with Suc show ?case by (simp add: distinct_box_events)
qed

lemma distinct_dataset_events:
  "distinct (AppendRelationEvents (S ds) SideS axis (AppendRelationEvents (R ds) SideR axis []))"
proof -
  have "set (concat (map (box_events (R ds) SideR axis) [0..<length (boxes (R ds))])) \<inter>
        set (concat (map (box_events (S ds) SideS axis) [0..<length (boxes (S ds))])) = {}"
  proof -
    have "side e = SideR" if "e \<in> set (concat (map (box_events (R ds) SideR axis) [0..<length (boxes (R ds))]))" for e
      using relation_events_index[OF that] by simp
    moreover have "side e = SideS" if "e \<in> set (concat (map (box_events (S ds) SideS axis) [0..<length (boxes (S ds))]))" for e
      using relation_events_index[OF that] by simp
    ultimately show ?thesis by fastforce
  qed
  then show ?thesis
    by (simp add: AppendRelationEvents_def distinct_relation_events)
qed

lemma sorted_BuildSweepEvents:
  "sorted_wrt (EventLess tb) (BuildSweepEvents ds axis tb)"
  unfolding BuildSweepEvents_def
  by (rule strict_sorted_SortSweepEvents) (rule distinct_dataset_events)


section \<open>Sampling zero items\<close>

text \<open>
  Claim C10.  With \<open>k = 0\<close> the stabbing tree's \<open>Sample\<close> and the range-point tree's
  \<open>SampleRange\<close> return success with an empty output, whatever the tree, the query and
  the generator are (so also when the queried set is empty), and the generator is not
  advanced; a reported failure therefore has \<open>k > 0\<close>.
\<close>

theorem sample_zero_items_succeeds:
  "st_Sample t q 0 g = Some ((True, []), g) \<and>
   rp_SampleRange u l r 0 g = Some ((True, []), g) \<and>
   (\<forall>k out g'. st_Sample t q k g = Some ((False, out), g') \<longrightarrow> 0 < k) \<and>
   (\<forall>k out g'. rp_SampleRange u l r k g = Some ((False, out), g') \<longrightarrow> 0 < k)"
  by (auto simp: st_Sample_def rp_SampleRange_def)

theorem sample_zero_items_succeeds_witness:
  "st_Sample st_Clear 0 0 (Seed 1) = Some ((True, []), Seed 1) \<and>
   rp_SampleRange rp_Clear 0 1 0 (Seed 1) = Some ((True, []), Seed 1) \<and>
   st_Sample st_Clear 0 1 (Seed 1) = Some ((False, []), Seed 1) \<and>
   rp_SampleRange rp_Clear 0 1 1 (Seed 1) = Some ((False, []), Seed 1) \<and> (0::nat) < 1"
  using sample_zero_items_succeeds [of st_Clear 0 "Seed 1" rp_Clear 0 1]
  by (simp add: st_Sample_def rp_SampleRange_def st_Clear_def rp_Clear_def)

section \<open>Correctness of the sweep\<close>

subsection \<open>Canonical covers and leaf-to-root paths\<close>

lemma path_nodes_le: "n \<in> set (path_nodes y) \<Longrightarrow> 0 < n \<and> n \<le> y"
proof (induction y arbitrary: n rule: path_nodes.induct)
  case (1 idx)
  show ?case
  proof (cases "idx > 0")
    case True
    with "1.prems" have "n = idx \<or> n \<in> set (path_nodes (idx div 2))"
      by (subst (asm) path_nodes.simps) auto
    then show ?thesis
    proof
      assume "n = idx" with True show ?thesis by simp
    next
      assume "n \<in> set (path_nodes (idx div 2))"
      from "1.IH"[OF True this] show ?thesis by auto
    qed
  next
    case False
    with "1.prems" show ?thesis by (subst (asm) path_nodes.simps) simp
  qed
qed

lemma cover_nodes_lt: "n \<in> set (cover_nodes l r) \<Longrightarrow> n < r"
proof (induction l r arbitrary: n rule: cover_nodes.induct)
  case (1 l r)
  show ?case
  proof (cases "l < r")
    case True
    let ?l' = "(if odd l then l + 1 else l) div 2"
    let ?r' = "(if odd r then r - 1 else r) div 2"
    from "1.prems" True have "(odd l \<and> n = l) \<or> (odd r \<and> n = r - 1) \<or> n \<in> set (cover_nodes ?l' ?r')"
      by (subst (asm) cover_nodes.simps) (auto split: if_splits)
    then show ?thesis
    proof (elim disjE)
      assume "n \<in> set (cover_nodes ?l' ?r')"
      from "1.IH"[OF True this] have "n < ?r'" .
      then show ?thesis by (auto split: if_splits)
    qed (use True in auto)
  next
    case False
    with "1.prems" show ?thesis by (subst (asm) cover_nodes.simps) simp
  qed
qed

lemma sum_count_list_append:
  "sum_list (map (count_list (A @ B)) xs) =
   sum_list (map (count_list A) xs) + sum_list (map (count_list B) xs)"
  by (induction xs) simp_all

lemma cover_path_match:
  assumes "2 ^ k \<le> l" "l \<le> r" "r \<le> 2 ^ (k + 1)" "2 ^ k \<le> x" "x < 2 ^ (k + 1)"
  shows "sum_list (map (count_list (cover_nodes l r)) (path_nodes x)) = (if l \<le> x \<and> x < r then 1 else 0)"
  using assms
proof (induction k arbitrary: l r x)
  case 0
  then have x: "x = 1" by simp
  have p1: "path_nodes (Suc 0) = [Suc 0]"
    by (subst path_nodes.simps, subst path_nodes.simps) simp
  from 0 have "l = 1 \<and> r = 1 \<or> l = 1 \<and> r = 2 \<or> l = 2 \<and> r = 2" by auto
  then show ?case
  proof (elim disjE conjE)
    assume "l = 1" "r = 1"
    then show ?thesis by (subst cover_nodes.simps) (simp add: x p1)
  next
    assume "l = 1" "r = 2"
    then show ?thesis by (subst cover_nodes.simps, subst cover_nodes.simps) (simp add: x p1)
  next
    assume "l = 2" "r = 2"
    then show ?thesis by (subst cover_nodes.simps) (simp add: x p1)
  qed
next
  case (Suc k)
  show ?case
  proof (cases "l < r")
    case False
    then show ?thesis by (subst cover_nodes.simps) simp
  next
    case True
    let ?l' = "(if odd l then l + 1 else l) div 2"
    let ?r' = "(if odd r then r - 1 else r) div 2"
    let ?A = "(if odd l then [l] else []) @ (if odd r then [r - 1] else [])"
    have cov: "cover_nodes l r = ?A @ cover_nodes ?l' ?r'"
      using True by (subst cover_nodes.simps) simp
    have xpos: "x > 0" using Suc.prems by (metis less_le_trans zero_less_numeral zero_less_power)
    have path: "path_nodes x = x # path_nodes (x div 2)"
      using xpos by (subst path_nodes.simps) simp
    have b1: "2 ^ k \<le> ?l'" using Suc.prems by (auto split: if_splits)
    have b2: "?l' \<le> ?r'" using True by (auto split: if_splits elim!: oddE) 
    have b3: "?r' \<le> 2 ^ (k + 1)" using Suc.prems by (auto split: if_splits)
    have b4: "2 ^ k \<le> x div 2" using Suc.prems by auto
    have b5: "x div 2 < 2 ^ (k + 1)" using Suc.prems by auto
    have IH: "sum_list (map (count_list (cover_nodes ?l' ?r')) (path_nodes (x div 2)))
              = (if ?l' \<le> x div 2 \<and> x div 2 < ?r' then 1 else 0)"
      by (rule Suc.IH[OF b1 b2 b3 b4 b5])
    have cx: "count_list (cover_nodes ?l' ?r') x = 0"
    proof -
      have "x \<notin> set (cover_nodes ?l' ?r')"
        using cover_nodes_lt[of x ?l' ?r'] b3 Suc.prems by auto
      then show ?thesis by (simp add: count_list_0_iff)
    qed
    have cA: "sum_list (map (count_list ?A) (path_nodes (x div 2))) = 0"
    proof -
      have "\<And>n. n \<in> set (path_nodes (x div 2)) \<Longrightarrow> count_list ?A n = 0"
      proof -
        fix n assume "n \<in> set (path_nodes (x div 2))"
        then have "n \<le> x div 2" using path_nodes_le by blast
        then have "n < l" using b5 Suc.prems by auto
        then show "count_list ?A n = 0" using True by (auto)
      qed
      then show ?thesis by (simp add: sum_list_0)
    qed
    have split: "sum_list (map (count_list (?A @ cover_nodes ?l' ?r')) (path_nodes (x div 2)))
        = sum_list (map (count_list ?A) (path_nodes (x div 2)))
        + sum_list (map (count_list (cover_nodes ?l' ?r')) (path_nodes (x div 2)))"
      by (rule sum_count_list_append)
    have "sum_list (map (count_list (cover_nodes l r)) (path_nodes x))
        = count_list ?A x + (if ?l' \<le> x div 2 \<and> x div 2 < ?r' then 1 else 0)"
      unfolding cov path using cx cA IH split by simp
    also have "\<dots> = (if l \<le> x \<and> x < r then 1 else 0)"
      using True by (auto split: if_splits elim!: oddE evenE)
    finally show ?thesis .
  qed
qed

subsection \<open>The stabbing tree: buckets and their sizes\<close>

lemma u32_id: "n < 2 ^ 32 \<Longrightarrow> u32 n = n"
  by (simp add: u32_def)

lemma sum_fun_upd:
  fixes g :: "'b \<Rightarrow> nat" and n h :: nat and A :: "nat \<Rightarrow> 'b"
  assumes "h < n"
  shows "(\<Sum>i<n. g ((A(h := v)) i)) + g (A h) = (\<Sum>i<n. g (A i)) + g v"
proof -
  have fin: "finite {..<n}" and hin: "h \<in> {..<n}" using assms by auto
  have "(\<Sum>i<n. g ((A(h := v)) i)) = g v + (\<Sum>i\<in>{..<n} - {h}. g ((A(h := v)) i))"
    using sum.remove[OF fin hin, of "\<lambda>i. g ((A(h := v)) i)"] by simp
  moreover have "(\<Sum>i\<in>{..<n} - {h}. g ((A(h := v)) i)) = (\<Sum>i\<in>{..<n} - {h}. g (A i))"
    by (rule sum.cong) auto
  moreover have "(\<Sum>i<n. g (A i)) = g (A h) + (\<Sum>i\<in>{..<n} - {h}. g (A i))"
    using sum.remove[OF fin hin, of "\<lambda>i. g (A i)"] by simp
  ultimately show ?thesis by simp
qed

text \<open>Effect of the insertion loop on the stabbing tree.\<close>

lemma st_AddToNode_fields:
  "st_p (st_AddToNode t h node) = st_p t"
  "st_m (st_AddToNode t h node) = st_m t"
  "st_n_handles (st_AddToNode t h node) = st_n_handles t"
  "st_lo_rank (st_AddToNode t h node) = st_lo_rank t"
  "st_hi_rank (st_AddToNode t h node) = st_hi_rank t"
  "st_placement_size (st_AddToNode t h node) = (st_placement_size t)[h := st_placement_size t ! h + 1]"
  "length (st_nodes (st_AddToNode t h node)) = length (st_nodes t)"
  by (simp_all add: st_AddToNode_def Let_def)

lemma st_AddToNode_size:
  "node' < length (st_nodes t) \<Longrightarrow>
   length (st_nodes (st_AddToNode t h node) ! node') =
   length (st_nodes t ! node') + (if node' = node then 1 else 0)"
  by (simp add: st_AddToNode_def Let_def nth_list_update)

lemma st_fold_Add:
  assumes "h < length (st_placement_size t)"
  shows "st_p (fold (\<lambda>node u. st_AddToNode u h node) ns t) = st_p t \<and>
         st_m (fold (\<lambda>node u. st_AddToNode u h node) ns t) = st_m t \<and>
         st_n_handles (fold (\<lambda>node u. st_AddToNode u h node) ns t) = st_n_handles t \<and>
         st_lo_rank (fold (\<lambda>node u. st_AddToNode u h node) ns t) = st_lo_rank t \<and>
         st_hi_rank (fold (\<lambda>node u. st_AddToNode u h node) ns t) = st_hi_rank t \<and>
         st_placement_size (fold (\<lambda>node u. st_AddToNode u h node) ns t) =
           (st_placement_size t)[h := st_placement_size t ! h + length ns] \<and>
         length (st_nodes (fold (\<lambda>node u. st_AddToNode u h node) ns t)) = length (st_nodes t) \<and>
         (\<forall>node'<length (st_nodes t).
            length (st_nodes (fold (\<lambda>node u. st_AddToNode u h node) ns t) ! node') =
            length (st_nodes t ! node') + count_list ns node')"
  using assms
proof (induction ns arbitrary: t)
  case Nil
  then show ?case by simp
next
  case (Cons a ns)
  let ?t1 = "st_AddToNode t h a"
  have h1: "h < length (st_placement_size ?t1)"
    using Cons.prems by (simp add: st_AddToNode_fields)
  note IH = Cons.IH[OF h1]
  show ?case
    using IH Cons.prems
    by (auto simp: st_AddToNode_fields st_AddToNode_size)
qed

lemma st_RemoveFromNode_fields:
  "st_p (st_RemoveFromNode t node pos) = st_p t"
  "st_m (st_RemoveFromNode t node pos) = st_m t"
  "st_n_handles (st_RemoveFromNode t node pos) = st_n_handles t"
  "st_lo_rank (st_RemoveFromNode t node pos) = st_lo_rank t"
  "st_hi_rank (st_RemoveFromNode t node pos) = st_hi_rank t"
  "st_placement_size (st_RemoveFromNode t node pos) = st_placement_size t"
  "length (st_nodes (st_RemoveFromNode t node pos)) = length (st_nodes t)"
  by (simp_all add: st_RemoveFromNode_def Let_def)

lemma st_RemoveFromNode_size:
  "node' < length (st_nodes t) \<Longrightarrow>
   length (st_nodes (st_RemoveFromNode t node pos) ! node') =
   length (st_nodes t ! node') - (if node' = node then 1 else 0)"
  by (simp add: st_RemoveFromNode_def Let_def nth_list_update)

lemma st_fold_Remove:
  "st_p (fst (fold (\<lambda>node (u, b). (st_RemoveFromNode u node (f u b), b + 1)) ns (t, b0))) = st_p t \<and>
   st_m (fst (fold (\<lambda>node (u, b). (st_RemoveFromNode u node (f u b), b + 1)) ns (t, b0))) = st_m t \<and>
   st_n_handles (fst (fold (\<lambda>node (u, b). (st_RemoveFromNode u node (f u b), b + 1)) ns (t, b0))) = st_n_handles t \<and>
   st_lo_rank (fst (fold (\<lambda>node (u, b). (st_RemoveFromNode u node (f u b), b + 1)) ns (t, b0))) = st_lo_rank t \<and>
   st_hi_rank (fst (fold (\<lambda>node (u, b). (st_RemoveFromNode u node (f u b), b + 1)) ns (t, b0))) = st_hi_rank t \<and>
   st_placement_size (fst (fold (\<lambda>node (u, b). (st_RemoveFromNode u node (f u b), b + 1)) ns (t, b0))) = st_placement_size t \<and>
   length (st_nodes (fst (fold (\<lambda>node (u, b). (st_RemoveFromNode u node (f u b), b + 1)) ns (t, b0)))) = length (st_nodes t) \<and>
   (\<forall>node'<length (st_nodes t).
      length (st_nodes (fst (fold (\<lambda>node (u, b). (st_RemoveFromNode u node (f u b), b + 1)) ns (t, b0))) ! node') =
      length (st_nodes t ! node') - count_list ns node')"
proof (induction ns arbitrary: t b0)
  case Nil
  then show ?case by simp
next
  case (Cons a ns)
  show ?case
    using Cons.IH[of "st_RemoveFromNode t a (f t b0)" "b0 + 1"]
    by (auto simp: st_RemoveFromNode_fields st_RemoveFromNode_size)
qed

subsection \<open>The stabbing tree: insertion\<close>

lemma cover_nodes_nonempty: "l < r \<Longrightarrow> cover_nodes l r \<noteq> []"
proof (induction l r rule: cover_nodes.induct)
  case (1 l r)
  show ?case
  proof (cases "odd l \<or> odd r")
    case True
    then show ?thesis using "1.prems" by (subst cover_nodes.simps) auto
  next
    case False
    then have "l div 2 < r div 2" using "1.prems" by (auto elim!: evenE)
    with "1.IH"[OF "1.prems"] False have "cover_nodes (l div 2) (r div 2) \<noteq> []" by simp
    then show ?thesis using "1.prems" False by (subst cover_nodes.simps) simp
  qed
qed

lemma pow2_loop_result:
  assumes "m \<le> 2 ^ 30" "k \<le> 30"
  shows "\<exists>j. pow2_loop (2 ^ k) m = Some (2 ^ j) \<and> j \<le> 30 \<and> m \<le> 2 ^ j \<or> (2::nat) ^ k \<ge> m \<and> pow2_loop (2 ^ k) m = Some (2 ^ k)"
  using assms
proof (induction "30 - k" arbitrary: k)
  case 0
  then have k: "k = 30" by simp
  with 0 have "pow2_loop (2 ^ k) m = Some (2 ^ k)"
    by (subst pow2_loop.simps) simp
  with k 0 show ?case by auto
next
  case (Suc d)
  show ?case
  proof (cases "(2::nat) ^ k < m")
    case False
    then have "pow2_loop (2 ^ k) m = Some (2 ^ k)"
      by (subst pow2_loop.simps) simp
    with False Suc.prems show ?thesis by (intro exI[of _ k]) auto
  next
    case True
    have kk: "d = 30 - (k + 1)" "k + 1 \<le> 30" using Suc.hyps(2) by auto
    have "(2::nat) ^ k * 2 < 2 ^ 32"
    proof -
      have "(2::nat) ^ (k + 1) \<le> 2 ^ 30" using kk by (intro power_increasing) auto
      then show ?thesis by simp
    qed
    then have step: "pow2_loop (2 ^ k) m = pow2_loop (2 ^ (k + 1)) m"
      using True by (subst pow2_loop.simps) (simp add: u32_def mult.commute)
    from Suc.hyps(1)[OF kk(1) Suc.prems(1) kk(2)] 
    obtain j where "pow2_loop (2 ^ (k + 1)) m = Some (2 ^ j) \<and> j \<le> 30 \<and> m \<le> 2 ^ j"
      by (metis kk(2))
    with step show ?thesis by auto
  qed
qed

lemma pow2_loop_1:
  assumes "m \<le> 2 ^ 30"
  shows "\<exists>j. pow2_loop 1 m = Some (2 ^ j) \<and> j \<le> 30 \<and> m \<le> 2 ^ j"
proof -
  from pow2_loop_result[OF assms, of 0]
  show ?thesis by (auto intro: exI[of _ 0])
qed

lemma st_Insert_inv:
  assumes inv: "st_inv t A" and h: "h < st_n_handles t" and none: "A h = None"
    and lt: "L0 < U0" and lm: "L0 < st_m t"
  shows "st_inv (st_Insert t h L0 U0) (A(h \<mapsto> (L0, min U0 (st_m t))))"
proof -
  let ?p = "st_p t" and ?m = "st_m t" and ?n = "st_n_handles t"
  let ?U = "min U0 ?m"
  from inv have len: "length (st_nodes t) = 2 * ?p" and pb: "?p \<le> 2 ^ 30" and mp: "?m \<le> ?p"
    and lps: "length (st_placement_size t) = ?n" and llo: "length (st_lo_rank t) = ?n"
    and lhi: "length (st_hi_rank t) = ?n"
    and pk: "\<exists>k. ?p = 2 ^ k" and mpos: "0 < ?m"
    and hs: "\<forall>h < ?n. case A h of None \<Rightarrow> st_placement_size t ! h = 0
              | Some (L, U) \<Rightarrow> L < U \<and> U \<le> ?m \<and> 0 < st_placement_size t ! h \<and>
                         st_lo_rank t ! h = L \<and> st_hi_rank t ! h = U"
    and sz: "\<forall>node < 2 * ?p. length (st_nodes t ! node) = (\<Sum>h < ?n. cover_cnt ?p (A h) node)"
    by (auto simp: st_inv_def)
  have LU: "L0 < ?U" using lt lm by simp
  have b32: "L0 + ?p < 2 ^ 32" "?U + ?p < 2 ^ 32" using lm mp pb by auto
  let ?cov = "cover_nodes (L0 + ?p) (?U + ?p)"
  let ?t1 = "t\<lparr>st_lo_rank := (st_lo_rank t)[h := L0], st_hi_rank := (st_hi_rank t)[h := ?U]\<rparr>"
  let ?t2 = "fold (\<lambda>node u. st_AddToNode u h node) ?cov ?t1"
  have ins: "st_Insert t h L0 U0 = ?t2"
    using lt lm mpos LU b32 by (simp add: st_Insert_def Let_def u32_id min_def)
  have h1: "h < length (st_placement_size ?t1)" using h lps by simp
  note F = st_fold_Add[OF h1, of ?cov]
  have ps0: "st_placement_size t ! h = 0" using hs h none by auto
  have covne: "?cov \<noteq> []" using LU by (intro cover_nodes_nonempty) simp
  have covlt: "\<And>x. x \<in> set ?cov \<Longrightarrow> x < 2 * ?p"
    using cover_nodes_lt[of _ "L0 + ?p" "?U + ?p"] mp by fastforce
  show ?thesis
    unfolding ins st_inv_def
  proof (intro conjI allI impI)
    show "length (st_nodes ?t2) = 2 * st_p ?t2" using F len by simp
    show "\<exists>k. st_p ?t2 = 2 ^ k" using F pk by simp
    show "st_p ?t2 \<le> 2 ^ 30" using F pb by simp
    show "0 < st_m ?t2" using F mpos by simp
    show "st_m ?t2 \<le> st_p ?t2" using F mp by simp
    show "length (st_placement_size ?t2) = st_n_handles ?t2" using F lps by simp
    show "length (st_lo_rank ?t2) = st_n_handles ?t2" using F llo by simp
    show "length (st_hi_rank ?t2) = st_n_handles ?t2" using F lhi by simp
  next
    fix h' assume "h' < st_n_handles ?t2"
    then have h': "h' < ?n" using F by simp
    show "case (A(h \<mapsto> (L0, ?U))) h' of
            None \<Rightarrow> st_placement_size ?t2 ! h' = 0
          | Some (L, U) \<Rightarrow> L < U \<and> U \<le> st_m ?t2 \<and> 0 < st_placement_size ?t2 ! h' \<and>
                           st_lo_rank ?t2 ! h' = L \<and> st_hi_rank ?t2 ! h' = U"
    proof (cases "h' = h")
      case True
      then show ?thesis using F LU h lps llo lhi covne ps0 by (simp)
    next
      case False
      then show ?thesis using F hs h' by (auto split: option.splits)
    qed
  next
    fix node assume "node < 2 * st_p ?t2"
    then have nd: "node < 2 * ?p" using F by simp
    then have nd': "node < length (st_nodes ?t1)" using len by simp
    have "length (st_nodes ?t2 ! node) = length (st_nodes t ! node) + count_list ?cov node"
      using F nd' by simp
    also have "\<dots> = (\<Sum>h < ?n. cover_cnt ?p (A h) node) + cover_cnt ?p (Some (L0, ?U)) node"
      using sz nd by (simp add: cover_cnt_def)
    also have "\<dots> = (\<Sum>i < ?n. cover_cnt ?p ((A(h \<mapsto> (L0, ?U))) i) node)"
      using sum_fun_upd[OF h, of "\<lambda>e. cover_cnt ?p e node" A "Some (L0, ?U)"] none
      by (simp add: cover_cnt_def)
    finally show "length (st_nodes ?t2 ! node) =
        (\<Sum>i < st_n_handles ?t2. cover_cnt (st_p ?t2) ((A(h \<mapsto> (L0, ?U))) i) node)"
      using F by simp
  qed
qed

subsection \<open>The stabbing tree: erasure and counting\<close>

lemma st_Erase_inv:
  assumes inv: "st_inv t A" and h: "h < st_n_handles t"
  shows "st_inv (st_Erase t h) (A(h := None))"
proof (cases "A h")
  case None
  from inv h None have "st_placement_size t ! h = 0" by (auto simp: st_inv_def)
  then have "st_Erase t h = t" by (simp add: st_Erase_def)
  moreover have "A(h := None) = A" using None by auto
  ultimately show ?thesis using inv by simp
next
  case (Some LU)
  obtain L U where LU: "LU = (L, U)" by (cases LU)
  let ?p = "st_p t" and ?m = "st_m t" and ?n = "st_n_handles t"
  from inv have len: "length (st_nodes t) = 2 * ?p" and pb: "?p \<le> 2 ^ 30" and mp: "?m \<le> ?p"
    and lps: "length (st_placement_size t) = ?n" and llo: "length (st_lo_rank t) = ?n"
    and lhi: "length (st_hi_rank t) = ?n"
    and pk: "\<exists>k. ?p = 2 ^ k" and mpos: "0 < ?m"
    and hs: "\<forall>h < ?n. case A h of None \<Rightarrow> st_placement_size t ! h = 0
              | Some (L, U) \<Rightarrow> L < U \<and> U \<le> ?m \<and> 0 < st_placement_size t ! h \<and>
                         st_lo_rank t ! h = L \<and> st_hi_rank t ! h = U"
    and sz: "\<forall>node < 2 * ?p. length (st_nodes t ! node) = (\<Sum>h < ?n. cover_cnt ?p (A h) node)"
    by (auto simp: st_inv_def)
  from hs h Some LU have hh: "L < U" "U \<le> ?m" "0 < st_placement_size t ! h"
    "st_lo_rank t ! h = L" "st_hi_rank t ! h = U" by auto
  have b32: "L + ?p < 2 ^ 32" "U + ?p < 2 ^ 32" using hh mp pb by auto
  let ?cov = "cover_nodes (L + ?p) (U + ?p)"
  let ?f = "\<lambda>u b. st_pos_in_node u ! st_PlacementIndex u h b"
  let ?t1 = "fst (fold (\<lambda>node (u, b). (st_RemoveFromNode u node (?f u b), b + 1)) ?cov (t, 0))"
  let ?t2 = "?t1\<lparr>st_placement_size := (st_placement_size ?t1)[h := 0],
                  st_lo_rank := (st_lo_rank ?t1)[h := kInvalidRank],
                  st_hi_rank := (st_hi_rank ?t1)[h := kInvalidRank]\<rparr>"
  have er: "st_Erase t h = ?t2"
    using hh b32 by (simp add: st_Erase_def Let_def u32_id split_beta)
  note F = st_fold_Remove[of ?f ?cov t 0]
  show ?thesis
    unfolding er st_inv_def
  proof (intro conjI allI impI)
    show "length (st_nodes ?t2) = 2 * st_p ?t2" using F len by simp
    show "\<exists>k. st_p ?t2 = 2 ^ k" using F pk by simp
    show "st_p ?t2 \<le> 2 ^ 30" using F pb by simp
    show "0 < st_m ?t2" using F mpos by simp
    show "st_m ?t2 \<le> st_p ?t2" using F mp by simp
    show "length (st_placement_size ?t2) = st_n_handles ?t2" using F lps by simp
    show "length (st_lo_rank ?t2) = st_n_handles ?t2" using F llo by simp
    show "length (st_hi_rank ?t2) = st_n_handles ?t2" using F lhi by simp
  next
    fix h' assume "h' < st_n_handles ?t2"
    then have h': "h' < ?n" using F by simp
    show "case (A(h := None)) h' of
            None \<Rightarrow> st_placement_size ?t2 ! h' = 0
          | Some (L, U) \<Rightarrow> L < U \<and> U \<le> st_m ?t2 \<and> 0 < st_placement_size ?t2 ! h' \<and>
                           st_lo_rank ?t2 ! h' = L \<and> st_hi_rank ?t2 ! h' = U"
    proof (cases "h' = h")
      case True
      then show ?thesis using F h lps by simp
    next
      case False
      then show ?thesis using F hs h' by (auto split: option.splits)
    qed
  next
    fix node assume "node < 2 * st_p ?t2"
    then have nd: "node < 2 * ?p" using F by simp
    then have nd': "node < length (st_nodes t)" using len by simp
    have "length (st_nodes ?t2 ! node) = length (st_nodes t ! node) - count_list ?cov node"
      using F nd' by simp
    also have "\<dots> = (\<Sum>i < ?n. cover_cnt ?p (A i) node) - cover_cnt ?p (A h) node"
      using sz nd Some LU by (simp add: cover_cnt_def)
    also have "\<dots> = (\<Sum>i < ?n. cover_cnt ?p ((A(h := None)) i) node)"
      using sum_fun_upd[OF h, of "\<lambda>e. cover_cnt ?p e node" A None]
      by (simp add: cover_cnt_def)
    finally show "length (st_nodes ?t2 ! node) =
        (\<Sum>i < st_n_handles ?t2. cover_cnt (st_p ?t2) ((A(h := None)) i) node)"
      using F by simp
  qed
qed

lemma fold_bucket_size:
  "fold (\<lambda>node tot. tot + bucket_size ns node) xs acc =
   acc + word_of_nat (sum_list (map (\<lambda>node. length (ns ! node)) xs))"
  by (induction xs arbitrary: acc) (simp_all add: bucket_size_def algebra_simps)

lemma sum_list_sum_swap:
  fixes f :: "nat \<Rightarrow> 'b \<Rightarrow> nat"
  shows "sum_list (map (\<lambda>x. \<Sum>h<n. f h x) xs) = (\<Sum>h<n. sum_list (map (f h) xs))"
  by (induction xs) (simp_all add: sum.distrib)

lemma st_Count_inv:
  assumes inv: "st_inv t A" and q: "q < st_m t"
  shows "st_Count t q =
         word_of_nat (\<Sum>h < st_n_handles t.
            case A h of None \<Rightarrow> 0 | Some (L, U) \<Rightarrow> if L \<le> q \<and> q < U then 1 else 0)"
proof -
  let ?p = "st_p t" and ?m = "st_m t" and ?n = "st_n_handles t"
  from inv have len: "length (st_nodes t) = 2 * ?p" and pb: "?p \<le> 2 ^ 30" and mp: "?m \<le> ?p"
    and pk: "\<exists>k. ?p = 2 ^ k" and mpos: "0 < ?m"
    and hs: "\<forall>h < ?n. case A h of None \<Rightarrow> st_placement_size t ! h = 0
              | Some (L, U) \<Rightarrow> L < U \<and> U \<le> ?m \<and> 0 < st_placement_size t ! h \<and>
                         st_lo_rank t ! h = L \<and> st_hi_rank t ! h = U"
    and sz: "\<forall>node < 2 * ?p. length (st_nodes t ! node) = (\<Sum>h < ?n. cover_cnt ?p (A h) node)"
    by (auto simp: st_inv_def)
  obtain k where k: "?p = 2 ^ k" using pk by auto
  have b32: "q + ?p < 2 ^ 32" using q mp pb by auto
  let ?path = "path_nodes (q + ?p)"
  have cnt: "st_Count t q = word_of_nat (sum_list (map (\<lambda>node. length (st_nodes t ! node)) ?path))"
    using q mpos b32 by (simp add: st_Count_def fold_bucket_size u32_id)
  have pin: "\<And>x. x \<in> set ?path \<Longrightarrow> x < 2 * ?p"
    using path_nodes_le[of _ "q + ?p"] q mp by fastforce
  have meq: "map (\<lambda>node. length (st_nodes t ! node)) ?path =
        map (\<lambda>node. \<Sum>h < ?n. cover_cnt ?p (A h) node) ?path"
    using sz pin by (intro map_cong) auto
  have "sum_list (map (\<lambda>node. length (st_nodes t ! node)) ?path) =
        sum_list (map (\<lambda>node. \<Sum>h < ?n. cover_cnt ?p (A h) node) ?path)"
    by (rule arg_cong[OF meq])
  also have "\<dots> = (\<Sum>h < ?n. sum_list (map (cover_cnt ?p (A h)) ?path))"
    by (rule sum_list_sum_swap)
  also have "\<dots> = (\<Sum>h < ?n. case A h of None \<Rightarrow> 0
                     | Some (L, U) \<Rightarrow> if L \<le> q \<and> q < U then 1 else 0)"
  proof (rule sum.cong[OF refl])
    fix h assume "h \<in> {..< ?n}"
    then have h: "h < ?n" by simp
    show "sum_list (map (cover_cnt ?p (A h)) ?path) =
          (case A h of None \<Rightarrow> 0 | Some (L, U) \<Rightarrow> if L \<le> q \<and> q < U then 1 else 0)"
    proof (cases "A h")
      case None
      then show ?thesis by (simp add: cover_cnt_def)
    next
      case (Some LU)
      obtain L U where LU: "LU = (L, U)" by (cases LU)
      from hs h Some LU have hh: "L < U" "U \<le> ?m" by auto
      have "sum_list (map (count_list (cover_nodes (L + ?p) (U + ?p))) ?path) =
            (if L + ?p \<le> q + ?p \<and> q + ?p < U + ?p then 1 else 0)"
        using hh mp q by (intro cover_path_match[where k = k]) (auto simp: k)
      then show ?thesis using Some LU by (simp add: cover_cnt_def cong: map_cong)
    qed
  qed
  finally show ?thesis using cnt by simp
qed

lemma st_Init_inv:
  assumes "0 < m" "m \<le> 2 ^ 30"
  shows "\<exists>t. st_Init n m = Some t \<and> st_inv (st_ResetActive t) (\<lambda>_. None) \<and>
             st_n_handles t = n \<and> st_m t = m"
proof -
  from pow2_loop_1[OF assms(2)] obtain j where
    j: "pow2_loop 1 m = Some (2 ^ j)" "j \<le> 30" "m \<le> 2 ^ j" by auto
  have p30: "(2::nat) ^ j \<le> 2 ^ 30" using j(2) by (intro power_increasing) auto
  then have "2 * (2::nat) ^ j < 2 ^ 32" by simp
  then have u: "u32 (2 * 2 ^ j) = 2 * 2 ^ j" by (rule u32_id)
  show ?thesis
    using j assms p30 u
    by (auto simp: st_Init_def Let_def st_inv_def st_ResetActive_def cover_cnt_def)
qed

subsection \<open>The range-point tree: buckets and their sizes\<close>

lemma path_nodes_pos: "0 < x \<Longrightarrow> path_nodes x = x # path_nodes (x div 2)"
  by (subst path_nodes.simps) simp

lemma path_nodes_0: "path_nodes 0 = []"
  by (subst path_nodes.simps) simp

lemma count_list_sum: "count_list ys x = sum_list (map (\<lambda>y. if x = y then 1 else 0) ys)"
  by (induction ys) auto

lemma matches_sym:
  "sum_list (map (count_list ys) xs) = sum_list (map (count_list xs) ys)"
proof (induction xs)
  case Nil
  show ?case by (simp add: sum_list_0)
next
  case (Cons x xs)
  have "sum_list (map (count_list (x # xs)) ys) =
        sum_list (map (\<lambda>y. (if x = y then 1 else 0) + count_list xs y) ys)"
    by (intro arg_cong[where f = sum_list] map_cong) auto
  also have "\<dots> = sum_list (map (\<lambda>y. if x = y then 1 else 0) ys) + sum_list (map (count_list xs) ys)"
    by (simp add: sum_list_addf)
  also have "\<dots> = count_list ys x + sum_list (map (count_list ys) xs)"
    using Cons count_list_sum[of ys x] by simp
  finally have e: "sum_list (map (count_list (x # xs)) ys) =
                   count_list ys x + sum_list (map (count_list ys) xs)" .
  show ?case by (simp only: e list.map sum_list.Cons)
qed

lemma rp_AddToNode_fields:
  "rp_p (rp_AddToNode t h node b) = rp_p t"
  "rp_m (rp_AddToNode t h node b) = rp_m t"
  "rp_n_handles (rp_AddToNode t h node b) = rp_n_handles t"
  "rp_rank_of_handle (rp_AddToNode t h node b) = rp_rank_of_handle t"
  "rp_placement_size (rp_AddToNode t h node b) = rp_placement_size t"
  "length (rp_nodes (rp_AddToNode t h node b)) = length (rp_nodes t)"
  by (simp_all add: rp_AddToNode_def Let_def)

lemma rp_AddToNode_size:
  "node' < length (rp_nodes t) \<Longrightarrow>
   length (rp_nodes (rp_AddToNode t h node b) ! node') =
   length (rp_nodes t ! node') + (if node' = node then 1 else 0)"
  by (simp add: rp_AddToNode_def Let_def nth_list_update)

lemma rp_fold_Add:
  "rp_p (fst (fold (\<lambda>idx (u, b). (rp_AddToNode u h idx b, b + 1)) ns (t, b0))) = rp_p t \<and>
   rp_m (fst (fold (\<lambda>idx (u, b). (rp_AddToNode u h idx b, b + 1)) ns (t, b0))) = rp_m t \<and>
   rp_n_handles (fst (fold (\<lambda>idx (u, b). (rp_AddToNode u h idx b, b + 1)) ns (t, b0))) = rp_n_handles t \<and>
   rp_rank_of_handle (fst (fold (\<lambda>idx (u, b). (rp_AddToNode u h idx b, b + 1)) ns (t, b0))) = rp_rank_of_handle t \<and>
   rp_placement_size (fst (fold (\<lambda>idx (u, b). (rp_AddToNode u h idx b, b + 1)) ns (t, b0))) = rp_placement_size t \<and>
   snd (fold (\<lambda>idx (u, b). (rp_AddToNode u h idx b, b + 1)) ns (t, b0)) = b0 + length ns \<and>
   length (rp_nodes (fst (fold (\<lambda>idx (u, b). (rp_AddToNode u h idx b, b + 1)) ns (t, b0)))) = length (rp_nodes t) \<and>
   (\<forall>node'<length (rp_nodes t).
      length (rp_nodes (fst (fold (\<lambda>idx (u, b). (rp_AddToNode u h idx b, b + 1)) ns (t, b0))) ! node') =
      length (rp_nodes t ! node') + count_list ns node')"
proof (induction ns arbitrary: t b0)
  case Nil
  then show ?case by simp
next
  case (Cons a ns)
  show ?case
    using Cons.IH[of "rp_AddToNode t h a b0" "b0 + 1"]
    by (auto simp: rp_AddToNode_fields rp_AddToNode_size)
qed

lemma rp_RemoveFromNode_fields:
  "rp_p (rp_RemoveFromNode t node pos) = rp_p t"
  "rp_m (rp_RemoveFromNode t node pos) = rp_m t"
  "rp_n_handles (rp_RemoveFromNode t node pos) = rp_n_handles t"
  "rp_rank_of_handle (rp_RemoveFromNode t node pos) = rp_rank_of_handle t"
  "rp_placement_size (rp_RemoveFromNode t node pos) = rp_placement_size t"
  "length (rp_nodes (rp_RemoveFromNode t node pos)) = length (rp_nodes t)"
  by (simp_all add: rp_RemoveFromNode_def Let_def)

lemma rp_RemoveFromNode_size:
  "node' < length (rp_nodes t) \<Longrightarrow>
   length (rp_nodes (rp_RemoveFromNode t node pos) ! node') =
   length (rp_nodes t ! node') - (if node' = node then 1 else 0)"
  by (simp add: rp_RemoveFromNode_def Let_def nth_list_update)

lemma rp_Erase_loop_effect:
  assumes "n = length (path_nodes idx)"
  shows "rp_p (rp_Erase_loop h n i idx t) = rp_p t \<and>
         rp_m (rp_Erase_loop h n i idx t) = rp_m t \<and>
         rp_n_handles (rp_Erase_loop h n i idx t) = rp_n_handles t \<and>
         rp_rank_of_handle (rp_Erase_loop h n i idx t) = rp_rank_of_handle t \<and>
         rp_placement_size (rp_Erase_loop h n i idx t) = rp_placement_size t \<and>
         length (rp_nodes (rp_Erase_loop h n i idx t)) = length (rp_nodes t) \<and>
         (\<forall>node'<length (rp_nodes t).
            length (rp_nodes (rp_Erase_loop h n i idx t) ! node') =
            length (rp_nodes t ! node') - count_list (path_nodes idx) node')"
  using assms
proof (induction n arbitrary: i idx t)
  case 0
  then show ?case by simp
next
  case (Suc n)
  have pos: "0 < idx" using Suc.prems by (cases "idx = 0") (simp_all add: path_nodes_0)
  then have pn: "path_nodes idx = idx # path_nodes (idx div 2)" by (rule path_nodes_pos)
  with Suc.prems have n: "n = length (path_nodes (idx div 2))" by simp
  let ?t1 = "rp_RemoveFromNode t idx (rp_pos_in_node t ! rp_PlacementIndex t h i)"
  show ?case
    using Suc.IH[OF n, of "i + 1" ?t1]
    by (auto simp: pn rp_RemoveFromNode_fields rp_RemoveFromNode_size)
qed

subsection \<open>The range-point tree: insertion, erasure and counting\<close>

lemma rp_Insert_inv:
  assumes inv: "rp_inv t B" and h: "h < rp_n_handles t" and none: "B h = None"
    and rk: "rk < rp_m t"
  shows "rp_inv (rp_Insert t h rk) (B(h \<mapsto> rk))"
proof -
  let ?p = "rp_p t" and ?m = "rp_m t" and ?n = "rp_n_handles t"
  from inv have len: "length (rp_nodes t) = 2 * ?p" and pb: "?p \<le> 2 ^ 30" and mp: "?m \<le> ?p"
    and lps: "length (rp_placement_size t) = ?n" and lrk: "length (rp_rank_of_handle t) = ?n"
    and pk: "\<exists>k. ?p = 2 ^ k" and mpos: "0 < ?m"
    and hs: "\<forall>h < ?n. case B h of None \<Rightarrow> rp_placement_size t ! h = 0
              | Some rk \<Rightarrow> rk < ?m \<and> rp_placement_size t ! h = length (path_nodes (rk + ?p)) \<and>
                           rp_rank_of_handle t ! h = rk"
    and sz: "\<forall>node < 2 * ?p. length (rp_nodes t ! node) = (\<Sum>h < ?n. path_cnt ?p (B h) node)"
    by (auto simp: rp_inv_def)
  have b32: "rk + ?p < 2 ^ 32" using rk mp pb by auto
  let ?path = "path_nodes (rk + ?p)"
  let ?t1 = "t\<lparr>rp_rank_of_handle := (rp_rank_of_handle t)[h := rk]\<rparr>"
  let ?fd = "fold (\<lambda>idx (u, b). (rp_AddToNode u h idx b, b + 1)) ?path (?t1, 0)"
  let ?t2 = "(fst ?fd)\<lparr>rp_placement_size := (rp_placement_size (fst ?fd))[h := snd ?fd]\<rparr>"
  have ins: "rp_Insert t h rk = ?t2"
    using b32 by (simp add: rp_Insert_def Let_def u32_id split_beta)
  note F = rp_fold_Add[of h ?path ?t1 0]
  show ?thesis
    unfolding ins rp_inv_def
  proof (intro conjI allI impI)
    show "length (rp_nodes ?t2) = 2 * rp_p ?t2" using F len by simp
    show "\<exists>k. rp_p ?t2 = 2 ^ k" using F pk by simp
    show "rp_p ?t2 \<le> 2 ^ 30" using F pb by simp
    show "0 < rp_m ?t2" using F mpos by simp
    show "rp_m ?t2 \<le> rp_p ?t2" using F mp by simp
    show "length (rp_placement_size ?t2) = rp_n_handles ?t2" using F lps by simp
    show "length (rp_rank_of_handle ?t2) = rp_n_handles ?t2" using F lrk by simp
  next
    fix h' assume "h' < rp_n_handles ?t2"
    then have h': "h' < ?n" using F by simp
    show "case (B(h \<mapsto> rk)) h' of
            None \<Rightarrow> rp_placement_size ?t2 ! h' = 0
          | Some r \<Rightarrow> r < rp_m ?t2 \<and>
                      rp_placement_size ?t2 ! h' = length (path_nodes (r + rp_p ?t2)) \<and>
                      rp_rank_of_handle ?t2 ! h' = r"
    proof (cases "h' = h")
      case True
      then show ?thesis using F rk h lps lrk by simp
    next
      case False
      then show ?thesis using F hs h' by (auto split: option.splits)
    qed
  next
    fix node assume "node < 2 * rp_p ?t2"
    then have nd: "node < 2 * ?p" using F by simp
    then have nd': "node < length (rp_nodes ?t1)" using len by simp
    have "length (rp_nodes ?t2 ! node) = length (rp_nodes t ! node) + count_list ?path node"
      using F nd' by simp
    also have "\<dots> = (\<Sum>i < ?n. path_cnt ?p (B i) node) + path_cnt ?p (Some rk) node"
      using sz nd by (simp add: path_cnt_def)
    also have "\<dots> = (\<Sum>i < ?n. path_cnt ?p ((B(h \<mapsto> rk)) i) node)"
      using sum_fun_upd[OF h, of "\<lambda>e. path_cnt ?p e node" B "Some rk"] none
      by (simp add: path_cnt_def)
    finally show "length (rp_nodes ?t2 ! node) =
        (\<Sum>i < rp_n_handles ?t2. path_cnt (rp_p ?t2) ((B(h \<mapsto> rk)) i) node)"
      using F by simp
  qed
qed

lemma rp_Erase_inv:
  assumes inv: "rp_inv t B" and h: "h < rp_n_handles t"
  shows "rp_inv (rp_Erase t h) (B(h := None))"
proof (cases "B h")
  case None
  from inv h None have "rp_placement_size t ! h = 0" by (auto simp: rp_inv_def)
  then have "rp_Erase t h = t" by (simp add: rp_Erase_def)
  moreover have "B(h := None) = B" using None by auto
  ultimately show ?thesis using inv by simp
next
  case (Some rk)
  let ?p = "rp_p t" and ?m = "rp_m t" and ?n = "rp_n_handles t"
  from inv have len: "length (rp_nodes t) = 2 * ?p" and pb: "?p \<le> 2 ^ 30" and mp: "?m \<le> ?p"
    and lps: "length (rp_placement_size t) = ?n" and lrk: "length (rp_rank_of_handle t) = ?n"
    and pk: "\<exists>k. ?p = 2 ^ k" and mpos: "0 < ?m"
    and hs: "\<forall>h < ?n. case B h of None \<Rightarrow> rp_placement_size t ! h = 0
              | Some rk \<Rightarrow> rk < ?m \<and> rp_placement_size t ! h = length (path_nodes (rk + ?p)) \<and>
                           rp_rank_of_handle t ! h = rk"
    and sz: "\<forall>node < 2 * ?p. length (rp_nodes t ! node) = (\<Sum>h < ?n. path_cnt ?p (B h) node)"
    by (auto simp: rp_inv_def)
  from hs h Some have hh: "rk < ?m" "rp_placement_size t ! h = length (path_nodes (rk + ?p))"
    "rp_rank_of_handle t ! h = rk" by auto
  have ppos: "0 < ?p" using mpos mp by simp
  have b32: "rk + ?p < 2 ^ 32" using hh mp pb by auto
  let ?path = "path_nodes (rk + ?p)"
  have pne: "length ?path \<noteq> 0" using ppos by (simp add: path_nodes_pos)
  let ?t1 = "rp_Erase_loop h (length ?path) 0 (rk + ?p) t"
  let ?t2 = "?t1\<lparr>rp_placement_size := (rp_placement_size ?t1)[h := 0],
                  rp_rank_of_handle := (rp_rank_of_handle ?t1)[h := kInvalidRank]\<rparr>"
  have er: "rp_Erase t h = ?t2"
    using hh b32 pne by (simp add: rp_Erase_def Let_def u32_id)
  note F = rp_Erase_loop_effect[OF refl, where idx = "rk + ?p" and h = h and i = 0 and t = t]
  show ?thesis
    unfolding er rp_inv_def
  proof (intro conjI allI impI)
    show "length (rp_nodes ?t2) = 2 * rp_p ?t2" using F len by simp
    show "\<exists>k. rp_p ?t2 = 2 ^ k" using F pk by simp
    show "rp_p ?t2 \<le> 2 ^ 30" using F pb by simp
    show "0 < rp_m ?t2" using F mpos by simp
    show "rp_m ?t2 \<le> rp_p ?t2" using F mp by simp
    show "length (rp_placement_size ?t2) = rp_n_handles ?t2" using F lps by simp
    show "length (rp_rank_of_handle ?t2) = rp_n_handles ?t2" using F lrk by simp
  next
    fix h' assume "h' < rp_n_handles ?t2"
    then have h': "h' < ?n" using F by simp
    show "case (B(h := None)) h' of
            None \<Rightarrow> rp_placement_size ?t2 ! h' = 0
          | Some r \<Rightarrow> r < rp_m ?t2 \<and>
                      rp_placement_size ?t2 ! h' = length (path_nodes (r + rp_p ?t2)) \<and>
                      rp_rank_of_handle ?t2 ! h' = r"
    proof (cases "h' = h")
      case True
      then show ?thesis using F h lps by simp
    next
      case False
      then show ?thesis using F hs h' by (auto split: option.splits)
    qed
  next
    fix node assume "node < 2 * rp_p ?t2"
    then have nd: "node < 2 * ?p" using F by simp
    then have nd': "node < length (rp_nodes t)" using len by simp
    have "length (rp_nodes ?t2 ! node) = length (rp_nodes t ! node) - count_list ?path node"
      using F nd' by simp
    also have "\<dots> = (\<Sum>i < ?n. path_cnt ?p (B i) node) - path_cnt ?p (B h) node"
      using sz nd Some by (simp add: path_cnt_def)
    also have "\<dots> = (\<Sum>i < ?n. path_cnt ?p ((B(h := None)) i) node)"
      using sum_fun_upd[OF h, of "\<lambda>e. path_cnt ?p e node" B None]
      by (simp add: path_cnt_def)
    finally show "length (rp_nodes ?t2 ! node) =
        (\<Sum>i < rp_n_handles ?t2. path_cnt (rp_p ?t2) ((B(h := None)) i) node)"
      using F by simp
  qed
qed

lemma rp_CountRange_inv:
  assumes inv: "rp_inv t B"
  shows "rp_CountRange t l r =
         word_of_nat (\<Sum>h < rp_n_handles t.
            case B h of None \<Rightarrow> 0 | Some rk \<Rightarrow> if l \<le> rk \<and> rk < r then 1 else 0)"
proof -
  let ?p = "rp_p t" and ?m = "rp_m t" and ?n = "rp_n_handles t"
  from inv have len: "length (rp_nodes t) = 2 * ?p" and pb: "?p \<le> 2 ^ 30" and mp: "?m \<le> ?p"
    and pk: "\<exists>k. ?p = 2 ^ k" and mpos: "0 < ?m"
    and hs: "\<forall>h < ?n. case B h of None \<Rightarrow> rp_placement_size t ! h = 0
              | Some rk \<Rightarrow> rk < ?m \<and> rp_placement_size t ! h = length (path_nodes (rk + ?p)) \<and>
                           rp_rank_of_handle t ! h = rk"
    and sz: "\<forall>node < 2 * ?p. length (rp_nodes t ! node) = (\<Sum>h < ?n. path_cnt ?p (B h) node)"
    by (auto simp: rp_inv_def)
  obtain k where k: "?p = 2 ^ k" using pk by auto
  let ?l1 = "min l ?m" and ?r1 = "min r ?m"
  let ?ind = "\<lambda>h. case B h of None \<Rightarrow> 0 | Some rk \<Rightarrow> if l \<le> rk \<and> rk < r then 1 else (0::nat)"
  have rkm: "\<And>h rk. h < ?n \<Longrightarrow> B h = Some rk \<Longrightarrow> rk < ?m" using hs by fastforce
  show ?thesis
  proof (cases "?r1 \<le> ?l1")
    case True
    have "\<And>h. h < ?n \<Longrightarrow> ?ind h = 0"
    proof -
      fix h assume h: "h < ?n"
      show "?ind h = 0"
      proof (cases "B h")
        case None then show ?thesis by simp
      next
        case (Some rk)
        with rkm[OF h] have "rk < ?m" by simp
        with True Some show ?thesis by (auto simp: min_def split: if_splits)
      qed
    qed
    then have "(\<Sum>h < ?n. ?ind h) = 0" by simp
    moreover have "rp_CountRange t l r = 0"
      using True by (auto simp: rp_CountRange_def Let_def)
    ultimately show ?thesis by simp
  next
    case False
    then have lr: "?l1 < ?r1" by (simp only: not_le)
    then have lr0: "l < r" by (auto simp: min_def split: if_splits)
    have b32: "?l1 + ?p < 2 ^ 32" "?r1 + ?p < 2 ^ 32" using mp pb by auto
    let ?cov = "cover_nodes (?l1 + ?p) (?r1 + ?p)"
    have "rp_CountRange t l r =
            (if ?r1 \<le> ?l1 then 0
             else fold (\<lambda>node tot. tot + bucket_size (rp_nodes t) node)
                       (cover_nodes (u32 (?l1 + ?p)) (u32 (?r1 + ?p))) 0)"
      using lr0 mpos unfolding rp_CountRange_def Let_def by simp
    also have "\<dots> = fold (\<lambda>node tot. tot + bucket_size (rp_nodes t) node)
                       (cover_nodes (u32 (?l1 + ?p)) (u32 (?r1 + ?p))) 0"
      by (rule if_not_P[OF False])
    also have "\<dots> = word_of_nat (sum_list (map (\<lambda>node. length (rp_nodes t ! node)) ?cov))"
      by (simp only: u32_id[OF b32(1)] u32_id[OF b32(2)] fold_bucket_size add_0)
    finally have cnt: "rp_CountRange t l r =
        word_of_nat (sum_list (map (\<lambda>node. length (rp_nodes t ! node)) ?cov))" .
    have cin: "\<And>x. x \<in> set ?cov \<Longrightarrow> x < 2 * ?p"
      using cover_nodes_lt[of _ "?l1 + ?p" "?r1 + ?p"] mp by fastforce
    have meq: "map (\<lambda>node. length (rp_nodes t ! node)) ?cov =
          map (\<lambda>node. \<Sum>h < ?n. path_cnt ?p (B h) node) ?cov"
      using sz cin by (intro map_cong) auto
    have "sum_list (map (\<lambda>node. length (rp_nodes t ! node)) ?cov) =
          sum_list (map (\<lambda>node. \<Sum>h < ?n. path_cnt ?p (B h) node) ?cov)"
      by (rule arg_cong[OF meq])
    also have "\<dots> = (\<Sum>h < ?n. sum_list (map (path_cnt ?p (B h)) ?cov))"
      by (rule sum_list_sum_swap)
    also have "\<dots> = (\<Sum>h < ?n. ?ind h)"
    proof (rule sum.cong[OF refl])
      fix h assume "h \<in> {..< ?n}"
      then have h: "h < ?n" by simp
      show "sum_list (map (path_cnt ?p (B h)) ?cov) = ?ind h"
      proof (cases "B h")
        case None
        then show ?thesis by (simp add: path_cnt_def)
      next
        case (Some rk)
        with rkm[OF h] have rk: "rk < ?m" by simp
        have "sum_list (map (count_list (path_nodes (rk + ?p))) ?cov) =
              sum_list (map (count_list ?cov) (path_nodes (rk + ?p)))"
          by (rule matches_sym)
        also have "\<dots> = (if ?l1 + ?p \<le> rk + ?p \<and> rk + ?p < ?r1 + ?p then 1 else 0)"
          using lr mp rk by (intro cover_path_match[where k = k]) (auto simp: k)
        also have "\<dots> = (if l \<le> rk \<and> rk < r then 1 else 0)"
          using rk by (auto simp: min_def)
        finally show ?thesis using Some by (simp add: path_cnt_def cong: map_cong)
      qed
    qed
    finally show ?thesis using cnt by simp
  qed
qed

lemma rp_Init_inv:
  assumes "0 < m" "m \<le> 2 ^ 30"
  shows "\<exists>t. rp_Init n m = Some t \<and> rp_inv (rp_ResetActive t) (\<lambda>_. None) \<and>
             rp_n_handles t = n \<and> rp_m t = m"
proof -
  from pow2_loop_1[OF assms(2)] obtain j where
    j: "pow2_loop 1 m = Some (2 ^ j)" "j \<le> 30" "m \<le> 2 ^ j" by auto
  have p30: "(2::nat) ^ j \<le> 2 ^ 30" using j(2) by (intro power_increasing) auto
  then have "2 * (2::nat) ^ j < 2 ^ 32" by simp
  then have u: "u32 (2 * 2 ^ j) = 2 * 2 ^ j" by (rule u32_id)
  show ?thesis
    using j assms p30 u
    by (auto simp: rp_Init_def Let_def rp_inv_def rp_ResetActive_def path_cnt_def)
qed

subsection \<open>The active index\<close>

lemma st_fold_Add_mn:
  "st_m (fold (\<lambda>node u. st_AddToNode u h node) ns t) = st_m t \<and>
   st_n_handles (fold (\<lambda>node u. st_AddToNode u h node) ns t) = st_n_handles t"
  by (induction ns arbitrary: t) (simp_all add: st_AddToNode_fields)

lemma st_Insert_mn:
  "st_m (st_Insert t h L U) = st_m t \<and> st_n_handles (st_Insert t h L U) = st_n_handles t"
  by (simp add: st_Insert_def Let_def st_fold_Add_mn)

lemma st_Erase_mn:
  "st_m (st_Erase t h) = st_m t \<and> st_n_handles (st_Erase t h) = st_n_handles t"
  using st_fold_Remove[of "\<lambda>u b. st_pos_in_node u ! st_PlacementIndex u h b" _ t 0]
  by (simp add: st_Erase_def Let_def split_beta)

lemma rp_Insert_mn:
  "rp_m (rp_Insert t h rk) = rp_m t \<and> rp_n_handles (rp_Insert t h rk) = rp_n_handles t"
  using rp_fold_Add[of h _ "t\<lparr>rp_rank_of_handle := (rp_rank_of_handle t)[h := rk]\<rparr>" 0]
  by (simp add: rp_Insert_def Let_def split_beta)

lemma rp_Erase_loop_mn:
  "rp_m (rp_Erase_loop h n i idx t) = rp_m t \<and>
   rp_n_handles (rp_Erase_loop h n i idx t) = rp_n_handles t"
  by (induction n arbitrary: i idx t) (simp_all add: rp_RemoveFromNode_fields)

lemma rp_Erase_mn:
  "rp_m (rp_Erase t h) = rp_m t \<and> rp_n_handles (rp_Erase t h) = rp_n_handles t"
  by (simp add: rp_Erase_def Let_def rp_Erase_loop_mn)

lemma ai_Insert_inv:
  assumes inv: "ai_inv a A" and h: "h < ai_n a" and none: "A h = None"
    and lt: "L < U" and um: "U \<le> ai_m a"
  shows "ai_inv (ai_Insert a h L U) (A(h \<mapsto> (L, U)))"
proof -
  from inv have st: "st_inv (stab a) A" and rp: "rp_inv (pts a) (\<lambda>h. map_option fst (A h))"
    and eqs: "st_m (stab a) = ai_m a" "rp_m (pts a) = ai_m a"
       "st_n_handles (stab a) = ai_n a" "rp_n_handles (pts a) = ai_n a" "ai_m a \<le> 2 ^ 30"
    by (auto simp: ai_inv_def)
  have lm: "L < ai_m a" using lt um by simp
  have mn: "min U (st_m (stab a)) = U" using um eqs by simp
  have s1: "st_inv (st_Insert (stab a) h L U) (A(h \<mapsto> (L, U)))"
    using st_Insert_inv[OF st, of h L U] h none lt lm eqs mn by simp
  have r1: "rp_inv (rp_Insert (pts a) h L) ((\<lambda>h. map_option fst (A h))(h \<mapsto> L))"
    using rp_Insert_inv[OF rp, of h L] h none lm eqs by simp
  have feq: "(\<lambda>h'. map_option fst ((A(h \<mapsto> (L, U))) h')) = (\<lambda>h. map_option fst (A h))(h \<mapsto> L)"
    by (rule ext) simp
  have sm: "st_m (st_Insert (stab a) h L U) = ai_m a \<and> st_n_handles (st_Insert (stab a) h L U) = ai_n a"
    using st_Insert_mn[of "stab a" h L U] eqs by simp
  have rm: "rp_m (rp_Insert (pts a) h L) = ai_m a \<and> rp_n_handles (rp_Insert (pts a) h L) = ai_n a"
    using rp_Insert_mn[of "pts a" h L] eqs by simp
  show ?thesis
    using s1 r1 sm rm eqs unfolding ai_inv_def ai_Insert_def feq by simp
qed

lemma ai_Erase_inv:
  assumes inv: "ai_inv a A" and h: "h < ai_n a"
  shows "ai_inv (ai_Erase a h) (A(h := None))"
proof -
  from inv have st: "st_inv (stab a) A" and rp: "rp_inv (pts a) (\<lambda>h. map_option fst (A h))"
    and eqs: "st_m (stab a) = ai_m a" "rp_m (pts a) = ai_m a"
       "st_n_handles (stab a) = ai_n a" "rp_n_handles (pts a) = ai_n a" "ai_m a \<le> 2 ^ 30"
    by (auto simp: ai_inv_def)
  have s1: "st_inv (st_Erase (stab a) h) (A(h := None))"
    using st_Erase_inv[OF st, of h] h eqs by simp
  have r1: "rp_inv (rp_Erase (pts a) h) ((\<lambda>h. map_option fst (A h))(h := None))"
    using rp_Erase_inv[OF rp, of h] h eqs by simp
  have feq: "(\<lambda>h'. map_option fst ((A(h := None)) h')) = (\<lambda>h. map_option fst (A h))(h := None)"
    by (rule ext) simp
  have sm: "st_m (st_Erase (stab a) h) = ai_m a \<and> st_n_handles (st_Erase (stab a) h) = ai_n a"
    using st_Erase_mn[of "stab a" h] eqs by simp
  have rm: "rp_m (rp_Erase (pts a) h) = ai_m a \<and> rp_n_handles (rp_Erase (pts a) h) = ai_n a"
    using rp_Erase_mn[of "pts a" h] eqs by simp
  show ?thesis
    using s1 r1 sm rm eqs unfolding ai_inv_def ai_Erase_def feq by simp
qed

lemma ai_Count_inv:
  assumes inv: "ai_inv a A" and q: "q < ai_m a"
  shows "CountA a q + CountB a q qhi =
         word_of_nat (\<Sum>h < ai_n a. case A h of None \<Rightarrow> 0
            | Some (L, U) \<Rightarrow> (if L \<le> q \<and> q < U then 1 else 0) + (if q < L \<and> L < qhi then 1 else 0))"
proof -
  from inv have st: "st_inv (stab a) A" and rp: "rp_inv (pts a) (\<lambda>h. map_option fst (A h))"
    and eqs: "st_m (stab a) = ai_m a" "rp_m (pts a) = ai_m a"
       "st_n_handles (stab a) = ai_n a" "rp_n_handles (pts a) = ai_n a" "ai_m a \<le> 2 ^ 30"
    by (auto simp: ai_inv_def)
  have mpos: "0 < ai_m a" using q by simp
  have q1: "u32 (Suc q) = Suc q" using q eqs by (intro u32_id) simp
  have rl: "range_lo a q = q + 1" using q by (simp add: range_lo_def q1)
  have A: "CountA a q = word_of_nat (\<Sum>h < ai_n a.
            case A h of None \<Rightarrow> 0 | Some (L, U) \<Rightarrow> if L \<le> q \<and> q < U then 1 else 0)"
    using st_Count_inv[OF st, of q] q eqs by (simp add: CountA_def)
  have B: "CountB a q qhi = word_of_nat (\<Sum>h < ai_n a.
            case map_option fst (A h) of None \<Rightarrow> 0
            | Some rk \<Rightarrow> if q + 1 \<le> rk \<and> rk < min qhi (ai_m a) then 1 else 0)"
    using rp_CountRange_inv[OF rp, of "q + 1" "min qhi (ai_m a)"] mpos eqs
    by (simp add: CountB_def rl)
  have per: "\<And>h. h < ai_n a \<Longrightarrow>
      (case A h of None \<Rightarrow> 0 | Some (L, U) \<Rightarrow> if L \<le> q \<and> q < U then 1 else 0) +
      (case map_option fst (A h) of None \<Rightarrow> 0
            | Some rk \<Rightarrow> if q + 1 \<le> rk \<and> rk < min qhi (ai_m a) then 1 else 0) =
      (case A h of None \<Rightarrow> (0::nat)
            | Some (L, U) \<Rightarrow> (if L \<le> q \<and> q < U then 1 else 0) + (if q < L \<and> L < qhi then 1 else 0))"
  proof -
    fix h assume h: "h < ai_n a"
    show "?thesis h"
    proof (cases "A h")
      case None then show ?thesis by simp
    next
      case (Some LU)
      obtain L U where LU: "LU = (L, U)" by (cases LU)
      from st h eqs Some LU have "L < U" "U \<le> ai_m a" by (auto simp: st_inv_def)
      then show ?thesis using Some LU by auto
    qed
  qed
  have "CountA a q + CountB a q qhi = word_of_nat (
      (\<Sum>h < ai_n a. case A h of None \<Rightarrow> 0 | Some (L, U) \<Rightarrow> if L \<le> q \<and> q < U then 1 else 0) +
      (\<Sum>h < ai_n a. case map_option fst (A h) of None \<Rightarrow> 0
            | Some rk \<Rightarrow> if q + 1 \<le> rk \<and> rk < min qhi (ai_m a) then 1 else 0))"
    unfolding A B by simp
  also have "\<dots> = word_of_nat (\<Sum>h < ai_n a. 
      (case A h of None \<Rightarrow> 0 | Some (L, U) \<Rightarrow> if L \<le> q \<and> q < U then 1 else 0) +
      (case map_option fst (A h) of None \<Rightarrow> 0
            | Some rk \<Rightarrow> if q + 1 \<le> rk \<and> rk < min qhi (ai_m a) then 1 else 0))"
    by (simp only: sum.distrib)
  also have "\<dots> = word_of_nat (\<Sum>h < ai_n a. case A h of None \<Rightarrow> 0
            | Some (L, U) \<Rightarrow> (if L \<le> q \<and> q < U then 1 else 0) + (if q < L \<and> L < qhi then 1 else 0))"
    using per by (intro arg_cong[where f = word_of_nat] sum.cong) auto
  finally show ?thesis .
qed

lemma ai_Init_inv:
  assumes "0 < m" "m \<le> 2 ^ 30"
  shows "\<exists>a. ai_Init n m = Some a \<and> ai_inv (ai_ResetActive a) (\<lambda>_. None) \<and>
             ai_n (ai_ResetActive a) = n \<and> ai_m (ai_ResetActive a) = m"
proof -
  from st_Init_inv[OF assms, of n] obtain t where
    t: "st_Init n m = Some t" "st_inv (st_ResetActive t) (\<lambda>_. None)" "st_n_handles t = n" "st_m t = m"
    by auto
  from rp_Init_inv[OF assms, of n] obtain u where
    u: "rp_Init n m = Some u" "rp_inv (rp_ResetActive u) (\<lambda>_. None)" "rp_n_handles u = n" "rp_m u = m"
    by auto
  show ?thesis
    using t u assms
    by (simp add: ai_Init_def ai_inv_def ai_ResetActive_def st_ResetActive_def rp_ResetActive_def)
qed

lemma ai_ResetActive_inv:
  assumes "ai_inv a A"
  shows "ai_inv (ai_ResetActive a) (\<lambda>_. None) \<and> ai_n (ai_ResetActive a) = ai_n a \<and>
         ai_m (ai_ResetActive a) = ai_m a"
  using assms
  by (auto simp: ai_inv_def ai_ResetActive_def st_inv_def rp_inv_def st_ResetActive_def
        rp_ResetActive_def cover_cnt_def path_cnt_def)

subsection \<open>Ranks in the y-domain\<close>

lemma takeWhile_sorted_filter:
  fixes ys :: "('a::linorder) list"
  shows "sorted ys \<Longrightarrow> takeWhile (\<lambda>y. y < v) ys = filter (\<lambda>y. y < v) ys"
proof (induction ys)
  case Nil
  show ?case by simp
next
  case (Cons a ys)
  show ?case
  proof (cases "a < v")
    case True
    with Cons show ?thesis by simp
  next
    case False
    with Cons.prems have "\<forall>y\<in>set ys. \<not> y < v" by auto
    then have "filter (\<lambda>y. y < v) ys = []" by (simp add: filter_empty_conv)
    with False show ?thesis by simp
  qed
qed

lemma length_filter_mono:
  "(\<And>x. x \<in> set xs \<Longrightarrow> P x \<Longrightarrow> Q x) \<Longrightarrow> length (filter P xs) \<le> length (filter Q xs)"
  by (induction xs) auto

lemma length_filter_strict:
  "(\<And>x. x \<in> set xs \<Longrightarrow> P x \<Longrightarrow> Q x) \<Longrightarrow> z \<in> set xs \<Longrightarrow> Q z \<Longrightarrow> \<not> P z \<Longrightarrow>
   length (filter P xs) < length (filter Q xs)"
proof (induction xs)
  case Nil
  then show ?case by simp
next
  case (Cons a xs)
  show ?case
  proof (cases "z = a")
    case True
    have "length (filter P xs) \<le> length (filter Q xs)"
      using Cons.prems(1) by (intro length_filter_mono) auto
    with True Cons.prems show ?thesis by simp
  next
    case False
    with Cons.prems have "z \<in> set xs" by simp
    from Cons.IH[OF _ this Cons.prems(3,4)] Cons.prems(1)
    have "length (filter P xs) < length (filter Q xs)" by auto
    then show ?thesis using Cons.prems(1)[of a] by auto
  qed
qed

lemma lb_rank_filter:
  fixes ys :: "('a::linorder) list"
  assumes "sorted ys" "length ys < 2 ^ 32"
  shows "lb_rank ys v = length (filter (\<lambda>y. y < v) ys)"
proof -
  have "length (filter (\<lambda>y. y < v) ys) < 2 ^ 32"
    by (rule le_less_trans[OF length_filter_le assms(2)])
  then show ?thesis
    unfolding lb_rank_def takeWhile_sorted_filter[OF assms(1)] by (rule u32_id)
qed

lemma lb_rank_le:
  fixes ys :: "('a::linorder) list"
  assumes "sorted ys" "length ys < 2 ^ 32"
  shows "lb_rank ys v \<le> length ys"
  by (simp add: lb_rank_filter[OF assms])

lemma lb_rank_lt:
  fixes ys :: "('a::linorder) list"
  assumes "sorted ys" "length ys < 2 ^ 32" "v \<in> set ys"
  shows "lb_rank ys v < length ys"
proof -
  have "length (filter (\<lambda>y. y < v) ys) < length (filter (\<lambda>y. True) ys)"
    using assms(3) by (intro length_filter_strict[where z = v]) auto
  then show ?thesis by (simp add: lb_rank_filter[OF assms(1,2)])
qed

lemma lb_rank_less_iff:
  fixes ys :: "('a::linorder) list"
  assumes "sorted ys" "length ys < 2 ^ 32" "v \<in> set ys"
  shows "lb_rank ys v < lb_rank ys w \<longleftrightarrow> v < w"
proof
  assume "v < w"
  then have "length (filter (\<lambda>y. y < v) ys) < length (filter (\<lambda>y. y < w) ys)"
    using assms(3) by (intro length_filter_strict[where z = v]) auto
  then show "lb_rank ys v < lb_rank ys w" by (simp add: lb_rank_filter[OF assms(1,2)])
next
  assume a: "lb_rank ys v < lb_rank ys w"
  show "v < w"
  proof (rule ccontr)
    assume "\<not> v < w"
    then have "w \<le> v" by simp
    then have "length (filter (\<lambda>y. y < w) ys) \<le> length (filter (\<lambda>y. y < v) ys)"
      by (intro length_filter_mono) auto
    with a show False by (simp add: lb_rank_filter[OF assms(1,2)])
  qed
qed

lemma lb_rank_le_iff:
  fixes ys :: "('a::linorder) list"
  assumes "sorted ys" "length ys < 2 ^ 32" "w \<in> set ys"
  shows "lb_rank ys v \<le> lb_rank ys w \<longleftrightarrow> v \<le> w"
  using lb_rank_less_iff[OF assms, of v] by (auto simp: not_less[symmetric])

text \<open>The y-domain of a dataset.\<close>

lemma build_y_domain_props:
  fixes ds :: "('a::linorder) Dataset"
  shows "sorted (build_y_domain ds)"
    and "set (build_y_domain ds) =
           (\<lambda>b. lo b ! 1) ` set (boxes (R ds)) \<union> (\<lambda>b. lo b ! 1) ` set (boxes (S ds))"
    and "length (build_y_domain ds) \<le> Size (R ds) + Size (S ds)"
proof -
  let ?xs = "map (\<lambda>b. lo b ! 1) (boxes (R ds)) @ map (\<lambda>b. lo b ! 1) (boxes (S ds))"
  show "sorted (build_y_domain ds)"
    unfolding build_y_domain_def by (intro sorted_remdups_adj) simp
  show "set (build_y_domain ds) =
           (\<lambda>b. lo b ! 1) ` set (boxes (R ds)) \<union> (\<lambda>b. lo b ! 1) ` set (boxes (S ds))"
    unfolding build_y_domain_def by simp
  have "length (remdups_adj (sort ?xs)) \<le> length (sort ?xs)" by (rule remdups_adj_length)
  then show "length (build_y_domain ds) \<le> Size (R ds) + Size (S ds)"
    unfolding build_y_domain_def Size_def by simp
qed

text \<open>Geometry of proper boxes.\<close>

lemma upt_Dim: "[0..<Dim] = [0, 1]"
  by (simp add: Dim_def numeral_2_eq_2)

lemma IsEmpty_iff: "IsEmpty b \<longleftrightarrow> \<not> (lo b ! 0 < hi b ! 0) \<or> \<not> (lo b ! 1 < hi b ! 1)"
  by (simp add: IsEmpty_def upt_Dim)

lemma Intersects_proper:
  assumes "\<not> IsEmpty a" "\<not> IsEmpty b"
  shows "Intersects a b \<longleftrightarrow>
         (lo a ! 0 < hi b ! 0 \<and> lo b ! 0 < hi a ! 0) \<and> (lo a ! 1 < hi b ! 1 \<and> lo b ! 1 < hi a ! 1)"
  using assms by (simp add: Intersects_def upt_Dim)

lemma Validate_boxes_proper:
  "Validate_boxes True bs = None \<Longrightarrow> b \<in> set bs \<Longrightarrow> \<not> IsEmpty b"
  by (induction bs) (auto split: if_splits)

lemma Validate_proper:
  assumes "Validate True ds = Inr ()"
  shows "b \<in> set (boxes (R ds)) \<Longrightarrow> \<not> IsEmpty b"
    and "b \<in> set (boxes (S ds)) \<Longrightarrow> \<not> IsEmpty b"
  using assms Validate_boxes_proper[of "boxes (R ds)" b] Validate_boxes_proper[of "boxes (S ds)" b]
  by (auto simp: Validate_def Validate_rel_def split: if_splits option.splits sum.splits)

subsection \<open>The events of a validated dataset\<close>

lemma startE_simps [simp]:
  "kind (startE ds sd i) = Start" "side (startE ds sd i) = sd" "index (startE ds sd i) = i"
  "ex (startE ds sd i) = lo (boxes (rel_of ds sd) ! i) ! 0"
  by (simp_all add: startE_def)

lemma endE_simps [simp]:
  "kind (endE ds sd i) = End" "side (endE ds sd i) = sd" "index (endE ds sd i) = i"
  "ex (endE ds sd i) = hi (boxes (rel_of ds sd) ! i) ! 0"
  by (simp_all add: endE_def)

lemma startE_neq_endE [simp]: "startE ds sd i \<noteq> endE ds sd' j" "endE ds sd' j \<noteq> startE ds sd i"
  by (auto simp: startE_def endE_def)

lemma startE_inj [simp]: "startE ds sd i = startE ds sd' j \<longleftrightarrow> sd = sd' \<and> i = j"
  by (auto simp: startE_def)

lemma endE_inj [simp]: "endE ds sd i = endE ds sd' j \<longleftrightarrow> sd = sd' \<and> i = j"
  by (auto simp: endE_def)

lemma EventLess_start_end:
  "EventLess tb (startE ds sd i) (endE ds sd' j) \<longleftrightarrow>
     lo (boxes (rel_of ds sd) ! i) ! 0 < hi (boxes (rel_of ds sd') ! j) ! 0"
  by (auto simp: EventLess_def)

lemma EventLess_end_start:
  "EventLess tb (endE ds sd' j) (startE ds sd i) \<longleftrightarrow>
     hi (boxes (rel_of ds sd') ! j) ! 0 \<le> lo (boxes (rel_of ds sd) ! i) ! 0"
  by (auto simp: EventLess_def)

lemma EventLess_start_start:
  "EventLess tb (startE ds sd i) (startE ds sd' j) \<Longrightarrow>
     lo (boxes (rel_of ds sd) ! i) ! 0 \<le> lo (boxes (rel_of ds sd') ! j) ! 0"
  by (auto simp: EventLess_def split: if_splits)

text \<open>The events of a validated dataset.\<close>

lemma box_events_proper:
  assumes "\<not> IsEmpty (boxes (rel_of ds sd) ! i)"
  shows "box_events (rel_of ds sd) sd 0 i = [startE ds sd i, endE ds sd i]"
  using assms by (simp add: box_events_def Let_def IsEmpty_iff startE_def endE_def)

lemma relation_events_set:
  assumes "\<And>b. b \<in> set (boxes (rel_of ds sd)) \<Longrightarrow> \<not> IsEmpty b"
  shows "set (concat (map (box_events (rel_of ds sd) sd 0) [0..<length (boxes (rel_of ds sd))])) =
         startE ds sd ` {..<length (boxes (rel_of ds sd))} \<union>
         endE ds sd ` {..<length (boxes (rel_of ds sd))}"
proof -
  have "\<And>i. i < length (boxes (rel_of ds sd)) \<Longrightarrow>
          box_events (rel_of ds sd) sd 0 i = [startE ds sd i, endE ds sd i]"
    using assms by (intro box_events_proper) simp
  then show ?thesis by (auto simp: image_iff)
qed

lemma events_set:
  fixes ds :: "('a::linorder) Dataset"
  assumes v: "Validate True ds = Inr ()"
  shows "set (BuildSweepEvents ds 0 tb) =
         (\<Union>sd. startE ds sd ` {..<Size (rel_of ds sd)} \<union> endE ds sd ` {..<Size (rel_of ds sd)})"
proof -
  have r: "\<And>b. b \<in> set (boxes (rel_of ds SideR)) \<Longrightarrow> \<not> IsEmpty b"
    using Validate_proper(1)[OF v] by simp
  have s: "\<And>b. b \<in> set (boxes (rel_of ds SideS)) \<Longrightarrow> \<not> IsEmpty b"
    using Validate_proper(2)[OF v] by simp
  have U: "(UNIV :: Side set) = {SideR, SideS}"
    using Side.exhaust by auto
  have e: "set (BuildSweepEvents ds 0 tb) =
        set (concat (map (box_events (rel_of ds SideR) SideR 0) [0..<length (boxes (rel_of ds SideR))])) \<union>
        set (concat (map (box_events (rel_of ds SideS) SideS 0) [0..<length (boxes (rel_of ds SideS))]))"
    unfolding BuildSweepEvents_def SortSweepEvents_sort_key AppendRelationEvents_def
    by simp
  have "set (BuildSweepEvents ds 0 tb) =
        (startE ds SideR ` {..<length (boxes (rel_of ds SideR))} \<union>
         endE ds SideR ` {..<length (boxes (rel_of ds SideR))}) \<union>
        (startE ds SideS ` {..<length (boxes (rel_of ds SideS))} \<union>
         endE ds SideS ` {..<length (boxes (rel_of ds SideS))})"
    using e relation_events_set[OF r] relation_events_set[OF s] by (simp only:)
  also have "\<dots> = (\<Union>sd. startE ds sd ` {..<Size (rel_of ds sd)} \<union> endE ds sd ` {..<Size (rel_of ds sd)})"
    unfolding U Size_def by blast
  finally show ?thesis .
qed

lemma events_length:
  fixes ds :: "('a::linorder) Dataset"
  shows "distinct (BuildSweepEvents ds 0 tb)"
  unfolding BuildSweepEvents_def SortSweepEvents_sort_key
  using distinct_dataset_events[of ds 0] by simp

lemma in_set_take_nth: "e \<in> set (take k xs) \<longleftrightarrow> (\<exists>i<k. i < length xs \<and> xs ! i = e)"
  by (auto simp: in_set_conv_nth)

lemma sorted_prefix_less:
  assumes "sorted_wrt lt xs" "k < length xs" "e \<in> set (take k xs)"
  shows "lt e (xs ! k)"
proof -
  from assms(3) obtain i where "i < k" "i < length xs" "xs ! i = e"
    by (auto simp: in_set_take_nth)
  with assms(1,2) show ?thesis by (auto simp: sorted_wrt_iff_nth_less)
qed

lemma sorted_suffix_less:
  assumes "sorted_wrt lt xs" "k < length xs" "e \<in> set xs" "e \<notin> set (take k xs)" "e \<noteq> xs ! k"
  shows "lt (xs ! k) e"
proof -
  from assms(3) obtain j where j: "j < length xs" "xs ! j = e" by (auto simp: in_set_conv_nth)
  with assms(4) have "\<not> j < k" by (auto simp: in_set_take_nth)
  with assms(5) j have "k < j" by (cases "j = k") auto
  with assms(1) j show ?thesis by (auto simp: sorted_wrt_iff_nth_less)
qed

lemma distinct_nth_notin_take:
  assumes "distinct xs" "k < length xs"
  shows "xs ! k \<notin> set (take k xs)"
proof
  assume "xs ! k \<in> set (take k xs)"
  then obtain i where "i < k" "i < length xs" "xs ! i = xs ! k" by (auto simp: in_set_take_nth)
  with assms show False by (auto simp: distinct_conv_nth)
qed

lemma set_take_Suc:
  "k < length xs \<Longrightarrow> set (take (Suc k) xs) = insert (xs ! k) (set (take k xs))"
  by (simp add: take_Suc_conv_app_nth)

subsection \<open>Active sets and the partial join\<close>

lemma box_proper:
  fixes ds :: "('a::linorder) Dataset"
  assumes v: "Validate True ds = Inr ()" and h: "h < Size (rel_of ds sd)"
  shows "\<not> IsEmpty (boxes (rel_of ds sd) ! h)"
proof (cases sd)
  case SideR
  then show ?thesis using Validate_proper(1)[OF v, of "boxes (R ds) ! h"] h by (simp add: Size_def)
next
  case SideS
  then show ?thesis using Validate_proper(2)[OF v, of "boxes (S ds) ! h"] h by (simp add: Size_def)
qed

lemma lo_in_y_domain:
  fixes ds :: "('a::linorder) Dataset"
  assumes h: "h < Size (rel_of ds sd)"
  shows "lo (boxes (rel_of ds sd) ! h) ! 1 \<in> set (build_y_domain ds)"
proof -
  have "boxes (rel_of ds sd) ! h \<in> set (boxes (rel_of ds sd))"
    using h by (simp add: Size_def)
  then show ?thesis
    unfolding build_y_domain_props(2) by (cases sd) auto
qed

lemma y_domain_small:
  fixes ds :: "('a::linorder) Dataset"
  assumes "Size (R ds) + Size (S ds) \<le> 2 ^ 30"
  shows "length (build_y_domain ds) \<le> 2 ^ 30" "length (build_y_domain ds) < 2 ^ 32"
proof -
  show "length (build_y_domain ds) \<le> 2 ^ 30"
    using build_y_domain_props(3)[of ds] assms by linarith
  then show "length (build_y_domain ds) < 2 ^ 32" by simp
qed

lemma rank_bounds:
  fixes ds :: "('a::linorder) Dataset"
  assumes v: "Validate True ds = Inr ()" and sz: "Size (R ds) + Size (S ds) \<le> 2 ^ 30"
    and h: "h < Size (rel_of ds sd)"
  shows "rankLo ds sd h < length (build_y_domain ds)"
    and "rankLo ds sd h < rankHi ds sd h"
    and "rankHi ds sd h \<le> length (build_y_domain ds)"
proof -
  note s = build_y_domain_props(1)[of ds] and l = y_domain_small(2)[OF sz]
  note m = lo_in_y_domain[OF h]
  show "rankLo ds sd h < length (build_y_domain ds)"
    unfolding rankLo_def by (rule lb_rank_lt[OF s l m])
  have "lo (boxes (rel_of ds sd) ! h) ! 1 < hi (boxes (rel_of ds sd) ! h) ! 1"
    using box_proper[OF v h] by (simp add: IsEmpty_iff)
  then show "rankLo ds sd h < rankHi ds sd h"
    unfolding rankLo_def rankHi_def lb_rank_less_iff[OF s l m] .
  show "rankHi ds sd h \<le> length (build_y_domain ds)"
    unfolding rankHi_def by (rule lb_rank_le[OF s l])
qed

text \<open>Patterns A and B together are the overlap of the y intervals.\<close>

lemma y_pattern:
  fixes ds :: "('a::linorder) Dataset"
  assumes v: "Validate True ds = Inr ()" and sz: "Size (R ds) + Size (S ds) \<le> 2 ^ 30"
    and h: "h < Size (rel_of ds sd)" and j: "j < Size (rel_of ds sd')"
  shows "(if rankLo ds sd' j \<le> rankLo ds sd h \<and> rankLo ds sd h < rankHi ds sd' j then 1 else 0) +
         (if rankLo ds sd h < rankLo ds sd' j \<and> rankLo ds sd' j < rankHi ds sd h then 1 else 0) =
         (if lo (boxes (rel_of ds sd) ! h) ! 1 < hi (boxes (rel_of ds sd') ! j) ! 1 \<and>
             lo (boxes (rel_of ds sd') ! j) ! 1 < hi (boxes (rel_of ds sd) ! h) ! 1 then 1 else (0::nat))"
proof -
  note s = build_y_domain_props(1)[of ds] and l = y_domain_small(2)[OF sz]
  note mh = lo_in_y_domain[OF h] and mj = lo_in_y_domain[OF j]
  have ph: "lo (boxes (rel_of ds sd) ! h) ! 1 < hi (boxes (rel_of ds sd) ! h) ! 1"
    using box_proper[OF v h] by (simp add: IsEmpty_iff)
  have pj: "lo (boxes (rel_of ds sd') ! j) ! 1 < hi (boxes (rel_of ds sd') ! j) ! 1"
    using box_proper[OF v j] by (simp add: IsEmpty_iff)
  show ?thesis
    unfolding rankLo_def rankHi_def
      lb_rank_less_iff[OF s l mh] lb_rank_less_iff[OF s l mj] lb_rank_le_iff[OF s l mh]
    using ph pj by auto
qed

lemma joinP_insert_end: "joinP ds (insert (endE ds sd h) P) = joinP ds P"
  by (simp add: joinP_def)

lemma sum_add_at:
  fixes f :: "nat \<Rightarrow> nat"
  assumes "h < n" "\<And>i. i < n \<Longrightarrow> i \<noteq> h \<Longrightarrow> f' i = f i" "f' h = f h + g"
  shows "(\<Sum>i<n. f' i) = (\<Sum>i<n. f i) + g"
proof -
  have "(\<Sum>i<n. f' i) = (\<Sum>i<n. f i + (if i = h then g else 0))"
    using assms by (intro sum.cong) auto
  also have "\<dots> = (\<Sum>i<n. f i) + (\<Sum>i<n. if i = h then g else 0)"
    by (simp add: sum.distrib)
  also have "(\<Sum>i<n. if i = h then g else 0) = g"
    using assms(1) by (simp add: sum.delta)
  finally show ?thesis .
qed

lemma joinP_insert_start_R:
  assumes h: "h < Size (R ds)" and n: "startE ds SideR h \<notin> P"
  shows "joinP ds (insert (startE ds SideR h) P) =
         joinP ds P + (\<Sum>j < Size (S ds).
            if Intersects (boxes (R ds) ! h) (boxes (S ds) ! j) \<and> startE ds SideS j \<in> P
            then 1 else 0)"
  unfolding joinP_def
  by (rule sum_add_at[OF h]) (use n in simp_all)

lemma joinP_insert_start_S:
  assumes h: "h < Size (S ds)" and n: "startE ds SideS h \<notin> P"
  shows "joinP ds (insert (startE ds SideS h) P) =
         joinP ds P + (\<Sum>i < Size (R ds).
            if Intersects (boxes (R ds) ! i) (boxes (S ds) ! h) \<and> startE ds SideR i \<in> P
            then 1 else 0)"
proof -
  have "joinP ds (insert (startE ds SideS h) P) =
        (\<Sum>i < Size (R ds). (\<Sum>j < Size (S ds).
            if Intersects (boxes (R ds) ! i) (boxes (S ds) ! j) \<and>
               startE ds SideR i \<in> P \<and> startE ds SideS j \<in> P then 1 else 0) +
          (if Intersects (boxes (R ds) ! i) (boxes (S ds) ! h) \<and> startE ds SideR i \<in> P
           then 1 else 0))"
    unfolding joinP_def
    by (intro sum.cong refl sum_add_at[OF h]) (use n in simp_all)
  then show ?thesis by (simp add: joinP_def sum.distrib)
qed

lemma actmap_insert_end:
  "actmap ds (insert (endE ds sd h) P) sd' =
     (if sd' = sd then (actmap ds P sd)(h := None) else actmap ds P sd')"
  by (auto simp: actmap_def fun_eq_iff)

lemma actmap_insert_start:
  assumes "h < Size (rel_of ds sd)" "endE ds sd h \<notin> P"
  shows "actmap ds (insert (startE ds sd h) P) sd' =
     (if sd' = sd then (actmap ds P sd)(h \<mapsto> (rankLo ds sd h, rankHi ds sd h))
      else actmap ds P sd')"
  using assms by (auto simp: actmap_def fun_eq_iff)

subsection \<open>The weight of a Start event\<close>

lemma active_weight:
  fixes ds :: "('a::linorder) Dataset"
  assumes v: "Validate True ds = Inr ()" and sz: "Size (R ds) + Size (S ds) \<le> 2 ^ 30"
    and k: "k < length (BuildSweepEvents ds 0 RBeforeS)"
    and ev: "BuildSweepEvents ds 0 RBeforeS ! k = startE ds sd h"
    and h: "h < Size (rel_of ds sd)" and j: "j < Size (rel_of ds sd')"
  shows "(case actmap ds (set (take k (BuildSweepEvents ds 0 RBeforeS))) sd' j of None \<Rightarrow> 0
          | Some (L, U) \<Rightarrow>
              (if L \<le> rankLo ds sd h \<and> rankLo ds sd h < U then 1 else 0) +
              (if rankLo ds sd h < L \<and> L < rankHi ds sd h then 1 else 0)) =
         (if Intersects (boxes (rel_of ds sd) ! h) (boxes (rel_of ds sd') ! j) \<and>
             startE ds sd' j \<in> set (take k (BuildSweepEvents ds 0 RBeforeS)) then 1 else (0::nat))"
proof -
  let ?evs = "BuildSweepEvents ds 0 RBeforeS"
  let ?P = "set (take k ?evs)"
  note srt = sorted_BuildSweepEvents[of RBeforeS ds 0]
  note ph = box_proper[OF v h] and pj = box_proper[OF v j]
  note I = Intersects_proper[OF ph pj]
  have endj: "endE ds sd' j \<in> set ?evs"
    unfolding events_set[OF v] using j by blast
  show ?thesis
  proof (cases "startE ds sd' j \<in> ?P")
    case False
    then show ?thesis by (simp add: actmap_def)
  next
    case st: True
    have "EventLess RBeforeS (startE ds sd' j) (?evs ! k)"
      by (rule sorted_prefix_less[OF srt k st])
    then have x1: "lo (boxes (rel_of ds sd') ! j) ! 0 \<le> lo (boxes (rel_of ds sd) ! h) ! 0"
      unfolding ev by (rule EventLess_start_start)
    show ?thesis
    proof (cases "endE ds sd' j \<in> ?P")
      case True
      have "EventLess RBeforeS (endE ds sd' j) (?evs ! k)"
        by (rule sorted_prefix_less[OF srt k True])
      then have "hi (boxes (rel_of ds sd') ! j) ! 0 \<le> lo (boxes (rel_of ds sd) ! h) ! 0"
        unfolding ev EventLess_end_start .
      then have "\<not> Intersects (boxes (rel_of ds sd) ! h) (boxes (rel_of ds sd') ! j)"
        unfolding I by auto
      then show ?thesis using True by (simp add: actmap_def)
    next
      case False
      have "endE ds sd' j \<noteq> ?evs ! k" unfolding ev by simp
      then have "EventLess RBeforeS (?evs ! k) (endE ds sd' j)"
        by (intro sorted_suffix_less[OF srt k endj False])
      then have x2: "lo (boxes (rel_of ds sd) ! h) ! 0 < hi (boxes (rel_of ds sd') ! j) ! 0"
        unfolding ev EventLess_start_end .
      have x3: "lo (boxes (rel_of ds sd) ! h) ! 0 < hi (boxes (rel_of ds sd) ! h) ! 0"
        using ph by (simp add: IsEmpty_iff)
      have a: "actmap ds ?P sd' j = Some (rankLo ds sd' j, rankHi ds sd' j)"
        using st False j by (simp add: actmap_def)
      have i: "Intersects (boxes (rel_of ds sd) ! h) (boxes (rel_of ds sd') ! j) \<longleftrightarrow>
               lo (boxes (rel_of ds sd) ! h) ! 1 < hi (boxes (rel_of ds sd') ! j) ! 1 \<and>
               lo (boxes (rel_of ds sd') ! j) ! 1 < hi (boxes (rel_of ds sd) ! h) ! 1"
        unfolding I using x1 x2 x3 by auto
      show ?thesis
        unfolding a i using y_pattern[OF v sz h j] st by simp
    qed
  qed
qed

lemma Intersects_sym:
  "\<not> IsEmpty a \<Longrightarrow> \<not> IsEmpty b \<Longrightarrow> Intersects a b = Intersects b a"
  by (auto simp: Intersects_proper)

lemma ai_Erase_nm [simp]: "ai_n (ai_Erase a h) = ai_n a" "ai_m (ai_Erase a h) = ai_m a"
  by (simp_all add: ai_Erase_def)

lemma ai_Insert_nm [simp]:
  "ai_n (ai_Insert a h L U) = ai_n a" "ai_m (ai_Insert a h L U) = ai_m a"
  by (simp_all add: ai_Insert_def)

lemma event_cases:
  fixes ds :: "('a::linorder) Dataset"
  assumes v: "Validate True ds = Inr ()" and k: "k < length (BuildSweepEvents ds 0 tb)"
  obtains sd h where "h < Size (rel_of ds sd)" "BuildSweepEvents ds 0 tb ! k = startE ds sd h"
  | sd h where "h < Size (rel_of ds sd)" "BuildSweepEvents ds 0 tb ! k = endE ds sd h"
proof -
  have "BuildSweepEvents ds 0 tb ! k \<in> set (BuildSweepEvents ds 0 tb)"
    using k by simp
  then show ?thesis unfolding events_set[OF v] using that by auto
qed

subsection \<open>One step of the sweep\<close>

lemma step_end_R:
  assumes "events (sb_ctx b) ! k = endE ds SideR h" "h < 2 ^ 32"
  shows "sb_Count_step k (b, W) =
         (b\<lparr>sb_ctx := (sb_ctx b)\<lparr>active_r := ai_Erase (active_r (sb_ctx b)) h\<rparr>\<rparr>, W)"
  using assms by (simp add: sb_Count_step_def Let_def u32_id)

lemma step_end_S:
  assumes "events (sb_ctx b) ! k = endE ds SideS h" "h < 2 ^ 32"
  shows "sb_Count_step k (b, W) =
         (b\<lparr>sb_ctx := (sb_ctx b)\<lparr>active_s := ai_Erase (active_s (sb_ctx b)) h\<rparr>\<rparr>, W)"
  using assms by (simp add: sb_Count_step_def Let_def u32_id)

lemma step_start_R:
  assumes "events (sb_ctx b) ! k = startE ds SideR h" "h < 2 ^ 32"
  shows "\<exists>b'. sb_Count_step k (b, W) =
           (b', W + (CountA (active_s (sb_ctx b)) (ylo_rank_r (sb_ctx b) ! h) +
                     CountB (active_s (sb_ctx b)) (ylo_rank_r (sb_ctx b) ! h)
                       (yhi_lb_rank_r (sb_ctx b) ! h))) \<and>
           sb_ctx b' = (sb_ctx b)\<lparr>active_r := ai_Insert (active_r (sb_ctx b)) h
                          (ylo_rank_r (sb_ctx b) ! h) (yhi_lb_rank_r (sb_ctx b) ! h)\<rparr>"
  using assms by (simp add: sb_Count_step_def Let_def u32_id)

lemma step_start_S:
  assumes "events (sb_ctx b) ! k = startE ds SideS h" "h < 2 ^ 32"
  shows "\<exists>b'. sb_Count_step k (b, W) =
           (b', W + (CountA (active_r (sb_ctx b)) (ylo_rank_s (sb_ctx b) ! h) +
                     CountB (active_r (sb_ctx b)) (ylo_rank_s (sb_ctx b) ! h)
                       (yhi_lb_rank_s (sb_ctx b) ! h))) \<and>
           sb_ctx b' = (sb_ctx b)\<lparr>active_s := ai_Insert (active_s (sb_ctx b)) h
                          (ylo_rank_s (sb_ctx b) ! h) (yhi_lb_rank_s (sb_ctx b) ! h)\<rparr>"
  using assms by (simp add: sb_Count_step_def Let_def u32_id)

lemma end_not_before_start:
  fixes ds :: "('a::linorder) Dataset"
  assumes v: "Validate True ds = Inr ()"
    and k: "k < length (BuildSweepEvents ds 0 RBeforeS)"
    and ev: "BuildSweepEvents ds 0 RBeforeS ! k = startE ds sd h"
    and h: "h < Size (rel_of ds sd)"
  shows "endE ds sd h \<notin> set (take k (BuildSweepEvents ds 0 RBeforeS))"
proof
  assume "endE ds sd h \<in> set (take k (BuildSweepEvents ds 0 RBeforeS))"
  then have "EventLess RBeforeS (endE ds sd h) (BuildSweepEvents ds 0 RBeforeS ! k)"
    by (rule sorted_prefix_less[OF sorted_BuildSweepEvents k])
  then have "hi (boxes (rel_of ds sd) ! h) ! 0 \<le> lo (boxes (rel_of ds sd) ! h) ! 0"
    unfolding ev EventLess_end_start .
  with box_proper[OF v h] show False by (auto simp: IsEmpty_iff)
qed

lemma sweep_step:
  fixes ds :: "('a::linorder) Dataset"
  assumes v: "Validate True ds = Inr ()" and sz: "Size (R ds) + Size (S ds) \<le> 2 ^ 30"
    and k: "k < length (BuildSweepEvents ds 0 RBeforeS)"
    and inv: "sweep_inv ds (set (take k (BuildSweepEvents ds 0 RBeforeS))) st"
  shows "sweep_inv ds (set (take (Suc k) (BuildSweepEvents ds 0 RBeforeS))) (sb_Count_step k st)"
proof -
  let ?evs = "BuildSweepEvents ds 0 RBeforeS"
  let ?P = "set (take k ?evs)"
  obtain b W where st: "st = (b, W)" by (cases st)
  let ?c = "sb_ctx b"
  from inv have T: "ctx_tables ds ?c"
    and iR: "ai_inv (active_r ?c) (actmap ds ?P SideR)"
    and iS: "ai_inv (active_s ?c) (actmap ds ?P SideS)"
    and W: "W = word_of_nat (joinP ds ?P)"
    by (simp_all add: sweep_inv_def st)
  have E: "events ?c = ?evs" using T by (simp add: ctx_tables_def)
  have P': "set (take (Suc k) ?evs) = insert (?evs ! k) ?P"
    by (rule set_take_Suc[OF k])
  have nin: "?evs ! k \<notin> ?P"
    by (rule distinct_nth_notin_take[OF events_length k])
  have nr: "ai_n (active_r ?c) = Size (R ds)" and ns: "ai_n (active_s ?c) = Size (S ds)"
    and mr: "ai_m (active_r ?c) = length (build_y_domain ds)"
    and ms: "ai_m (active_s ?c) = length (build_y_domain ds)"
    using T by (simp_all add: ctx_tables_def)
  show ?thesis
  proof (rule event_cases[OF v k])
    fix sd h assume h: "h < Size (rel_of ds sd)" and ev: "?evs ! k = endE ds sd h"
    have h32: "h < 2 ^ 32"
    proof -
      have "h < Size (R ds) + Size (S ds)" using h by (cases sd) auto
      with sz show ?thesis by simp
    qed
    show ?thesis
    proof (cases sd)
      case SideR
      have s: "sb_Count_step k (b, W) =
               (b\<lparr>sb_ctx := ?c\<lparr>active_r := ai_Erase (active_r ?c) h\<rparr>\<rparr>, W)"
        by (rule step_end_R[where ds = ds]) (use h32 in \<open>simp_all add: E ev SideR\<close>)
      have "ai_inv (ai_Erase (active_r ?c) h) ((actmap ds ?P SideR)(h := None))"
        by (rule ai_Erase_inv[OF iR]) (use h SideR nr in simp)
      then show ?thesis
        unfolding st s P' ev
        using T iS W SideR
        by (simp add: sweep_inv_def actmap_insert_end joinP_insert_end ctx_tables_def)
    next
      case SideS
      have s: "sb_Count_step k (b, W) =
               (b\<lparr>sb_ctx := ?c\<lparr>active_s := ai_Erase (active_s ?c) h\<rparr>\<rparr>, W)"
        by (rule step_end_S[where ds = ds]) (use h32 in \<open>simp_all add: E ev SideS\<close>)
      have "ai_inv (ai_Erase (active_s ?c) h) ((actmap ds ?P SideS)(h := None))"
        by (rule ai_Erase_inv[OF iS]) (use h SideS ns in simp)
      then show ?thesis
        unfolding st s P' ev
        using T iR W SideS
        by (simp add: sweep_inv_def actmap_insert_end joinP_insert_end ctx_tables_def)
    qed
  next
    fix sd h assume h: "h < Size (rel_of ds sd)" and ev: "?evs ! k = startE ds sd h"
    have h32: "h < 2 ^ 32"
    proof -
      have "h < Size (R ds) + Size (S ds)" using h by (cases sd) auto
      with sz show ?thesis by simp
    qed
    note rb = rank_bounds[OF v sz h]
    have en: "endE ds sd h \<notin> ?P"
      by (rule end_not_before_start[OF v k ev h])
    have sn: "startE ds sd h \<notin> ?P" using nin ev by simp
    have none: "actmap ds ?P sd h = None" using sn by (simp add: actmap_def)
    note am = actmap_insert_start[OF h en]
    show ?thesis
    proof (cases sd)
      case SideR
      have hR: "h < Size (R ds)" using h SideR by simp
      have lo: "ylo_rank_r ?c ! h = rankLo ds SideR h"
        and hi: "yhi_lb_rank_r ?c ! h = rankHi ds SideR h"
        using T hR by (simp_all add: ctx_tables_def)
      obtain b' where s: "sb_Count_step k (b, W) =
           (b', W + (CountA (active_s ?c) (rankLo ds SideR h) +
                     CountB (active_s ?c) (rankLo ds SideR h) (rankHi ds SideR h)))"
        and c': "sb_ctx b' = ?c\<lparr>active_r := ai_Insert (active_r ?c) h
                          (rankLo ds SideR h) (rankHi ds SideR h)\<rparr>"
        using step_start_R[of b k ds h W] E ev SideR h32 lo hi by auto
      have cnt: "CountA (active_s ?c) (rankLo ds SideR h) +
                 CountB (active_s ?c) (rankLo ds SideR h) (rankHi ds SideR h) =
                 word_of_nat (\<Sum>j < Size (S ds).
                    if Intersects (boxes (R ds) ! h) (boxes (S ds) ! j) \<and> startE ds SideS j \<in> ?P
                    then 1 else 0)"
        unfolding ai_Count_inv[OF iS, of "rankLo ds SideR h" "rankHi ds SideR h",
            unfolded ms, OF rb(1)[unfolded SideR]] ns
        by (intro arg_cong[where f = word_of_nat] sum.cong refl)
           (use active_weight[OF v sz k ev[unfolded SideR], of _ SideS] hR in simp)
      have ins: "ai_inv (ai_Insert (active_r ?c) h (rankLo ds SideR h) (rankHi ds SideR h))
                   ((actmap ds ?P SideR)(h \<mapsto> (rankLo ds SideR h, rankHi ds SideR h)))"
        by (rule ai_Insert_inv[OF iR]) (use hR nr mr none rb SideR in simp_all)
      show ?thesis
        unfolding st s P' ev SideR sweep_inv_def
        using T iS W ins
        by (simp add: c' am[unfolded SideR] cnt joinP_insert_start_R[OF hR sn[unfolded SideR]]
            ctx_tables_def)
    next
      case SideS
      have hS: "h < Size (S ds)" using h SideS by simp
      have lo: "ylo_rank_s ?c ! h = rankLo ds SideS h"
        and hi: "yhi_lb_rank_s ?c ! h = rankHi ds SideS h"
        using T hS by (simp_all add: ctx_tables_def)
      obtain b' where s: "sb_Count_step k (b, W) =
           (b', W + (CountA (active_r ?c) (rankLo ds SideS h) +
                     CountB (active_r ?c) (rankLo ds SideS h) (rankHi ds SideS h)))"
        and c': "sb_ctx b' = ?c\<lparr>active_s := ai_Insert (active_s ?c) h
                          (rankLo ds SideS h) (rankHi ds SideS h)\<rparr>"
        using step_start_S[of b k ds h W] E ev SideS h32 lo hi by auto
      have sym: "Intersects (boxes (S ds) ! h) (boxes (R ds) ! j) =
                 Intersects (boxes (R ds) ! j) (boxes (S ds) ! h)" if "j < Size (R ds)" for j
        using box_proper[OF v, of h SideS] box_proper[OF v, of j SideR] hS that
        by (intro Intersects_sym) simp_all
      have cnt: "CountA (active_r ?c) (rankLo ds SideS h) +
                 CountB (active_r ?c) (rankLo ds SideS h) (rankHi ds SideS h) =
                 word_of_nat (\<Sum>j < Size (R ds).
                    if Intersects (boxes (R ds) ! j) (boxes (S ds) ! h) \<and> startE ds SideR j \<in> ?P
                    then 1 else 0)"
        unfolding ai_Count_inv[OF iR, of "rankLo ds SideS h" "rankHi ds SideS h",
            unfolded mr, OF rb(1)[unfolded SideS]] nr
        by (intro arg_cong[where f = word_of_nat] sum.cong refl)
           (use active_weight[OF v sz k ev[unfolded SideS], of _ SideR] hS sym in simp)
      have ins: "ai_inv (ai_Insert (active_s ?c) h (rankLo ds SideS h) (rankHi ds SideS h))
                   ((actmap ds ?P SideS)(h \<mapsto> (rankLo ds SideS h, rankHi ds SideS h)))"
        by (rule ai_Insert_inv[OF iS]) (use hS ns ms none rb SideS in simp_all)
      show ?thesis
        unfolding st s P' ev SideS sweep_inv_def
        using T iR W ins
        by (simp add: c' am[unfolded SideS] cnt joinP_insert_start_S[OF hS sn[unfolded SideS]]
            ctx_tables_def)
    qed
  qed
qed

subsection \<open>The whole sweep and the oracle\<close>

lemma sweep_fold:
  fixes ds :: "('a::linorder) Dataset"
  assumes v: "Validate True ds = Inr ()" and sz: "Size (R ds) + Size (S ds) \<le> 2 ^ 30"
    and inv: "sweep_inv ds {} st"
  shows "k \<le> length (BuildSweepEvents ds 0 RBeforeS) \<Longrightarrow>
         sweep_inv ds (set (take k (BuildSweepEvents ds 0 RBeforeS))) (fold sb_Count_step [0..<k] st)"
proof (induction k)
  case 0
  show ?case using inv by simp
next
  case (Suc k)
  then have k: "k < length (BuildSweepEvents ds 0 RBeforeS)" by simp
  have "sweep_inv ds (set (take k (BuildSweepEvents ds 0 RBeforeS))) (fold sb_Count_step [0..<k] st)"
    using Suc by simp
  from sweep_step[OF v sz k this] show ?case by simp
qed

lemma joinP_all:
  fixes ds :: "('a::linorder) Dataset"
  assumes v: "Validate True ds = Inr ()"
  shows "joinP ds (set (BuildSweepEvents ds 0 RBeforeS)) =
         (\<Sum>i < Size (R ds). \<Sum>j < Size (S ds).
            if Intersects (boxes (R ds) ! i) (boxes (S ds) ! j) then 1 else 0)"
proof -
  have "startE ds sd h \<in> set (BuildSweepEvents ds 0 RBeforeS)" if "h < Size (rel_of ds sd)" for sd h
    unfolding events_set[OF v] using that by blast
  from this[of _ SideR] this[of _ SideS] show ?thesis
    unfolding joinP_def by (intro sum.cong refl) simp
qed

lemma length_filter_sum:
  "length (filter P xs) = (\<Sum>j < length xs. if P (xs ! j) then 1 else 0)"
proof (induction xs rule: rev_induct)
  case Nil
  show ?case by simp
next
  case (snoc x xs)
  have "(\<Sum>j < length xs. if P ((xs @ [x]) ! j) then 1 else 0 :: nat) =
        (\<Sum>j < length xs. if P (xs ! j) then 1 else 0)"
    by (intro sum.cong refl) (simp add: nth_append)
  with snoc show ?case by simp
qed

lemma sum_list_sum_lessThan:
  fixes f :: "'b \<Rightarrow> nat"
  shows "sum_list (map f xs) = (\<Sum>i < length xs. f (xs ! i))"
proof (induction xs rule: rev_induct)
  case Nil
  show ?case by simp
next
  case (snoc x xs)
  have "(\<Sum>i < length xs. f ((xs @ [x]) ! i)) = (\<Sum>i < length xs. f (xs ! i))"
    by (intro sum.cong refl) (simp add: nth_append)
  with snoc show ?case by simp
qed

lemma CountNaive_inner_eq:
  "CountNaive_inner rb sbs c = c + word_of_nat (length (filter (Intersects rb) sbs))"
  by (induction sbs arbitrary: c) (simp_all add: IntersectsHalfOpen_def)

lemma CountNaive_outer_eq:
  "CountNaive_outer rbs sbs c =
     c + word_of_nat (sum_list (map (\<lambda>rb. length (filter (Intersects rb) sbs)) rbs))"
  by (induction rbs arbitrary: c) (simp_all add: CountNaive_inner_eq)

lemma CountNaive_sum:
  "CountNaive r s =
     word_of_nat (\<Sum>i < Size r. \<Sum>j < Size s.
        if Intersects (boxes r ! i) (boxes s ! j) then 1 else 0)"
  by (simp add: CountNaive_def CountNaive_outer_eq sum_list_sum_lessThan length_filter_sum Size_def)

subsection \<open>Build and Count\<close>

lemma map_boxes_upt:
  "map f (boxes r) = map (\<lambda>i. f (boxes r ! i)) [0..<Size r]"
  by (rule nth_equalityI) (simp_all add: Size_def)

lemma y_domain_nonempty:
  fixes ds :: "('a::linorder) Dataset"
  assumes "0 < Size (R ds) + Size (S ds)"
  shows "build_y_domain ds \<noteq> []"
proof -
  have "boxes (R ds) \<noteq> [] \<or> boxes (S ds) \<noteq> []"
    using assms by (auto simp: Size_def)
  then have "set (build_y_domain ds) \<noteq> {}"
    unfolding build_y_domain_props(2) by auto
  then show ?thesis by auto
qed

lemma ctx_Build_ok:
  fixes ds :: "('a::linorder) Dataset"
  assumes sz: "Size (R ds) + Size (S ds) \<le> 2 ^ 30" and ne: "0 < Size (R ds) + Size (S ds)"
  shows "\<exists>c. ctx_Build ds = Some (Inr c) \<and> ctx_built c \<and> ctx_ds c = Some ds \<and>
             ctx_tables ds c \<and>
             ai_inv (active_r c) (\<lambda>_. None) \<and> ai_inv (active_s c) (\<lambda>_. None)"
proof -
  let ?ys = "build_y_domain ds"
  have nR: "Size (R ds) < 2 ^ 32" and nS: "Size (S ds) < 2 ^ 32"
    using sz by simp_all
  have ys: "?ys \<noteq> []" by (rule y_domain_nonempty[OF ne])
  have m: "0 < length ?ys" "length ?ys \<le> 2 ^ 30" "length ?ys < 2 ^ 32"
    using ys y_domain_small[OF sz] by simp_all
  obtain ar where ar: "ai_Init (Size (R ds)) (length ?ys) = Some ar"
    and ari: "ai_inv (ai_ResetActive ar) (\<lambda>_. None)"
    and arn: "ai_n (ai_ResetActive ar) = Size (R ds)" "ai_m (ai_ResetActive ar) = length ?ys"
    using ai_Init_inv[OF m(1,2), of "Size (R ds)"] by blast
  obtain as where as: "ai_Init (Size (S ds)) (length ?ys) = Some as"
    and asi: "ai_inv (ai_ResetActive as) (\<lambda>_. None)"
    and asn: "ai_n (ai_ResetActive as) = Size (S ds)" "ai_m (ai_ResetActive as) = length ?ys"
    using ai_Init_inv[OF m(1,2), of "Size (S ds)"] by blast
  obtain sids poss where sp: "start_id_map (BuildSweepEvents ds 0 RBeforeS) = (sids, poss)"
    by (cases "start_id_map (BuildSweepEvents ds 0 RBeforeS)")
  have B: "ctx_Build ds = Some (Inr \<lparr>ctx_ds = Some ds, ctx_built = True,
              events = BuildSweepEvents ds 0 RBeforeS,
              start_id_of_event = sids, start_event_pos = poss, y_coords = ?ys,
              ylo_rank_r = map (\<lambda>b. lb_rank ?ys (lo b ! 1)) (boxes (R ds)),
              yhi_lb_rank_r = map (\<lambda>b. lb_rank ?ys (hi b ! 1)) (boxes (R ds)),
              ylo_rank_s = map (\<lambda>b. lb_rank ?ys (lo b ! 1)) (boxes (S ds)),
              yhi_lb_rank_s = map (\<lambda>b. lb_rank ?ys (hi b ! 1)) (boxes (S ds)),
              active_r = ai_ResetActive ar, active_s = ai_ResetActive as\<rparr>)"
    using nR nS ys m(3)
    by (simp add: ctx_Build_def Let_def u32_max_def sp u32_id ar as)
  have t: "map (\<lambda>b. lb_rank ?ys (lo b ! 1)) (boxes (rel_of ds sd)) =
           map (rankLo ds sd) [0..<Size (rel_of ds sd)]"
          "map (\<lambda>b. lb_rank ?ys (hi b ! 1)) (boxes (rel_of ds sd)) =
           map (rankHi ds sd) [0..<Size (rel_of ds sd)]" for sd
    by (rule nth_equalityI; simp add: Size_def rankLo_def rankHi_def)+
  show ?thesis
    unfolding B
    using ari asi arn asn t[of SideR] t[of SideS]
    by (simp add: ctx_tables_def)
qed

lemma sb_Build_ok:
  fixes ds :: "('a::linorder) Dataset"
  assumes sz: "Size (R ds) + Size (S ds) \<le> 2 ^ 30" and ne: "0 < Size (R ds) + Size (S ds)"
  shows "\<exists>b'. sb_Build b ds = Some (Inr b') \<and> sb_ready ds b' \<and> \<not> sb_weights_valid b'"
proof -
  from ctx_Build_ok[OF sz ne] obtain c where "ctx_Build ds = Some (Inr c)"
    "ctx_built c" "ctx_ds c = Some ds" "ctx_tables ds c"
    "ai_inv (active_r c) (\<lambda>_. None)" "ai_inv (active_s c) (\<lambda>_. None)"
    by blast
  then show ?thesis
    by (simp add: sb_Build_def Let_def sb_ready_def sb_Reset_def)
qed

lemma actmap_empty: "actmap ds {} sd = (\<lambda>_. None)"
  by (simp add: actmap_def fun_eq_iff)

lemma joinP_empty: "joinP ds {} = 0"
  by (simp add: joinP_def)

lemma ctx_ResetActive_tables:
  assumes "ctx_tables ds c" "ai_inv (active_r c) A" "ai_inv (active_s c) A'"
  shows "ctx_tables ds (ctx_ResetActive c) \<and>
         ai_inv (active_r (ctx_ResetActive c)) (\<lambda>_. None) \<and>
         ai_inv (active_s (ctx_ResetActive c)) (\<lambda>_. None) \<and>
         ctx_built (ctx_ResetActive c) = ctx_built c \<and> ctx_ds (ctx_ResetActive c) = ctx_ds c"
  using assms ai_ResetActive_inv[OF assms(2)] ai_ResetActive_inv[OF assms(3)]
  by (simp add: ctx_tables_def ctx_ResetActive_def)

lemma sb_Count_step_built:
  "sb_built (fst (sb_Count_step k st)) = sb_built (fst st) \<and>
   ctx_built (sb_ctx (fst (sb_Count_step k st))) = ctx_built (sb_ctx (fst st)) \<and>
   ctx_ds (sb_ctx (fst (sb_Count_step k st))) = ctx_ds (sb_ctx (fst st))"
  by (simp add: sb_Count_step_def Let_def split: prod.splits)

lemma sb_Count_fold_built:
  "sb_built (fst (fold sb_Count_step ks st)) = sb_built (fst st) \<and>
   ctx_built (sb_ctx (fst (fold sb_Count_step ks st))) = ctx_built (sb_ctx (fst st)) \<and>
   ctx_ds (sb_ctx (fst (fold sb_Count_step ks st))) = ctx_ds (sb_ctx (fst st))"
  by (induction ks arbitrary: st) (simp_all add: sb_Count_step_built)

lemma sb_Count_ok:
  fixes ds :: "('a::linorder) Dataset"
  assumes v: "Validate True ds = Inr ()" and sz: "Size (R ds) + Size (S ds) \<le> 2 ^ 30"
    and rdy: "sb_ready ds b"
  shows "\<exists>b'. sb_Count b = Inr (MakeExactCount (CountNaive (R ds) (S ds)), b') \<and>
              sb_ready ds b' \<and> sb_weights_valid b' \<and> sb_W b' = CountNaive (R ds) (S ds)"
proof -
  let ?evs = "BuildSweepEvents ds 0 RBeforeS"
  let ?b0 = "b\<lparr>sb_w_total := map (\<lambda>_. 0) (sb_w_total b), sb_w_a := map (\<lambda>_. 0) (sb_w_a b),
               sb_w_b := map (\<lambda>_. 0) (sb_w_b b), sb_ctx := ctx_ResetActive (sb_ctx b)\<rparr>"
  from rdy have T: "ctx_tables ds (sb_ctx b)"
    and iR: "ai_inv (active_r (sb_ctx b)) (\<lambda>_. None)"
    and iS: "ai_inv (active_s (sb_ctx b)) (\<lambda>_. None)"
    and bl: "sb_built b" "ctx_built (sb_ctx b)" "ctx_ds (sb_ctx b) = Some ds"
    by (simp_all add: sb_ready_def)
  note r0 = ctx_ResetActive_tables[OF T iR iS]
  have E: "events (sb_ctx ?b0) = ?evs" using r0 by (simp add: ctx_tables_def)
  have "sweep_inv ds {} (?b0, 0)"
    using r0 by (simp add: sweep_inv_def actmap_empty joinP_empty)
  from sweep_fold[OF v sz this, of "length ?evs"]
  have fin: "sweep_inv ds (set ?evs) (fold sb_Count_step [0..<length ?evs] (?b0, 0))"
    by simp
  obtain b1 W where f: "fold sb_Count_step [0..<length ?evs] (?b0, 0) = (b1, W)"
    by (cases "fold sb_Count_step [0..<length ?evs] (?b0, 0)")
  from fin have T1: "ctx_tables ds (sb_ctx b1)"
    and i1: "ai_inv (active_r (sb_ctx b1)) (actmap ds (set ?evs) SideR)"
            "ai_inv (active_s (sb_ctx b1)) (actmap ds (set ?evs) SideS)"
    and W: "W = CountNaive (R ds) (S ds)"
    unfolding f by (simp_all add: sweep_inv_def joinP_all[OF v] CountNaive_sum)
  note r1 = ctx_ResetActive_tables[OF T1 i1]
  have bl1: "sb_built b1 \<and> ctx_built (sb_ctx b1) \<and> ctx_ds (sb_ctx b1) = Some ds"
    using sb_Count_fold_built[of "[0..<length ?evs]" "(?b0, 0)"] bl r0
    unfolding f by simp
  have C: "sb_Count b = Inr (MakeExactCount W,
             b1\<lparr>sb_ctx := ctx_ResetActive (sb_ctx b1), sb_W := W, sb_weights_valid := True\<rparr>)"
    using bl f E by (simp add: sb_Count_def Let_def del: fold_simps)
  show ?thesis
    unfolding C using r1 bl1 W by (simp add: sb_ready_def)
qed

section \<open>Exactness of Count\<close>



section \<open>Half-open intersection\<close>

text \<open>
  Claim C5.  Two proper rectangles satisfy the half-open predicate iff on each axis the
  \<open>lo\<close> of each is strictly below the \<open>hi\<close> of the other.  In particular, when on some
  axis one rectangle ends at the coordinate where the other starts, the pair does not
  intersect, and for a validated dataset that holds only this pair (one rectangle in
  \<open>R\<close>, the other in \<open>S\<close>) \<open>Build\<close> succeeds and \<open>Count\<close> returns exactly \<open>0\<close>.
\<close>

theorem half_open_touching_not_joined:
  fixes a b :: "('a::linorder) Box" and ds :: "'a Dataset"
  assumes "\<not> IsEmpty a" and "\<not> IsEmpty b"
  shows "(IntersectsHalfOpen a b \<longleftrightarrow> (\<forall>i<Dim. lo a ! i < hi b ! i \<and> lo b ! i < hi a ! i)) \<and>
         ((\<exists>i<Dim. hi a ! i = lo b ! i \<or> hi b ! i = lo a ! i) \<longrightarrow>
            \<not> IntersectsHalfOpen a b \<and>
            (Validate True ds = Inr () \<and> boxes (R ds) = [a] \<and> boxes (S ds) = [b] \<longrightarrow>
               (\<exists>b1 b2. sb_Build b0 ds = Some (Inr b1) \<and>
                        sb_Count b1 = Inr (MakeExactCount 0, b2))))"
proof -
  have D: "(\<forall>i<Dim. P i) \<longleftrightarrow> P 0 \<and> P 1" "(\<exists>i<Dim. P i) \<longleftrightarrow> P 0 \<or> P 1" for P
    by (auto simp: Dim_def less_2_cases_iff)
  have I: "IntersectsHalfOpen a b \<longleftrightarrow> (\<forall>i<Dim. lo a ! i < hi b ! i \<and> lo b ! i < hi a ! i)"
    unfolding IntersectsHalfOpen_def Intersects_proper[OF assms] D by simp
  have N: "\<not> IntersectsHalfOpen a b" if "\<exists>i<Dim. hi a ! i = lo b ! i \<or> hi b ! i = lo a ! i"
    using that unfolding I by auto
  have C: "\<exists>b1 b2. sb_Build b0 ds = Some (Inr b1) \<and> sb_Count b1 = Inr (MakeExactCount 0, b2)"
    if t: "\<exists>i<Dim. hi a ! i = lo b ! i \<or> hi b ! i = lo a ! i"
      and v: "Validate True ds = Inr ()" and r: "boxes (R ds) = [a]" and s: "boxes (S ds) = [b]"
  proof -
    have sz: "Size (R ds) + Size (S ds) \<le> 2 ^ 30" and ne: "0 < Size (R ds) + Size (S ds)"
      by (simp_all add: Size_def r s)
    have z: "CountNaive (R ds) (S ds) = 0"
      using N[OF t] by (simp add: CountNaive_def r s)
    from sb_Build_ok[OF sz ne, of b0] obtain b1
      where b1: "sb_Build b0 ds = Some (Inr b1)" "sb_ready ds b1" by blast
    from sb_Count_ok[OF v sz b1(2)] b1(1) show ?thesis unfolding z by blast
  qed
  from I N C show ?thesis by blast
qed

theorem half_open_touching_not_joined_witness:
  "\<not> IsEmpty (mkBox (0::nat) 1 0 1) \<and> \<not> IsEmpty (mkBox (1::nat) 2 0 1) \<and>
   hi (mkBox (0::nat) 1 0 1) ! 0 = lo (mkBox (1::nat) 2 0 1) ! 0 \<and>
   \<not> IntersectsHalfOpen (mkBox (0::nat) 1 0 1) (mkBox 1 2 0 1) \<and>
   Validate True \<lparr>half_open = True, R = \<lparr>boxes = [mkBox (0::nat) 1 0 1], ids = []\<rparr>,
                   S = \<lparr>boxes = [mkBox 1 2 0 1], ids = []\<rparr>\<rparr> = Inr () \<and>
   (\<exists>b1 b2. sb_Build sb_Init \<lparr>half_open = True, R = \<lparr>boxes = [mkBox (0::nat) 1 0 1], ids = []\<rparr>,
                   S = \<lparr>boxes = [mkBox 1 2 0 1], ids = []\<rparr>\<rparr> = Some (Inr b1) \<and>
            sb_Count b1 = Inr (MakeExactCount 0, b2))"
proof -
  have p: "\<not> IsEmpty (mkBox (0::nat) 1 0 1)" "\<not> IsEmpty (mkBox (1::nat) 2 0 1)"
    by (simp_all add: IsEmpty_iff mkBox_def)
  have t: "\<exists>i<Dim. hi (mkBox (0::nat) 1 0 1) ! i = lo (mkBox (1::nat) 2 0 1) ! i \<or>
                  hi (mkBox (1::nat) 2 0 1) ! i = lo (mkBox (0::nat) 1 0 1) ! i"
    by (rule exI[of _ 0]) (simp add: Dim_def mkBox_def)
  have t0: "hi (mkBox (0::nat) 1 0 1) ! 0 = lo (mkBox (1::nat) 2 0 1) ! 0"
    by (simp add: mkBox_def)
  have v: "Validate True \<lparr>half_open = True, R = \<lparr>boxes = [mkBox (0::nat) 1 0 1], ids = []\<rparr>,
                   S = \<lparr>boxes = [mkBox 1 2 0 1], ids = []\<rparr>\<rparr> = Inr ()"
    by (simp add: Validate_def Validate_rel_def IsValid_def IsEmpty_iff upt_Dim mkBox_def)
  from half_open_touching_not_joined
    [OF p, of "\<lparr>half_open = True, R = \<lparr>boxes = [mkBox (0::nat) 1 0 1], ids = []\<rparr>,
                   S = \<lparr>boxes = [mkBox 1 2 0 1], ids = []\<rparr>\<rparr>" sb_Init] p t v t0
  show ?thesis by auto
qed

section \<open>Build on validated datasets\<close>

text \<open>
  Claim C7.  \<open>Build\<close> succeeds on every dataset that holds at least one rectangle and
  has \<open>|R| + |S| \<le> 2^30\<close> (validated or not): the context is built and the object is
  marked built.  The dataset with zero rectangles passes validation, yet \<open>Build\<close>
  rejects it with the error of the empty y-domain check.
\<close>

theorem build_succeeds_on_nonempty_dataset:
  fixes ds :: "('a::linorder) Dataset"
  assumes "0 < Size (R ds) + Size (S ds)" and "Size (R ds) + Size (S ds) \<le> 2 ^ 30"
  shows "\<exists>c b1. ctx_Build ds = Some (Inr c) \<and> sb_Build b ds = Some (Inr b1) \<and>
                sb_ctx b1 = c \<and> sb_built b1 \<and> ctx_built c \<and> ctx_ds c = Some ds"
proof -
  from ctx_Build_ok[OF assms(2,1)] obtain c
    where "ctx_Build ds = Some (Inr c)" "ctx_built c" "ctx_ds c = Some ds" by blast
  then show ?thesis by (simp add: sb_Build_def Let_def sb_Reset_def)
qed

theorem build_succeeds_on_nonempty_dataset_witness:
  "0 < Size (R \<lparr>half_open = True, R = \<lparr>boxes = [mkBox (0::nat) 1 0 1], ids = []\<rparr>,
                  S = \<lparr>boxes = [], ids = []\<rparr>\<rparr>) +
       Size (S \<lparr>half_open = True, R = \<lparr>boxes = [mkBox (0::nat) 1 0 1], ids = []\<rparr>,
                  S = \<lparr>boxes = [], ids = []\<rparr>\<rparr>) \<and>
   (\<exists>c b1. ctx_Build \<lparr>half_open = True, R = \<lparr>boxes = [mkBox (0::nat) 1 0 1], ids = []\<rparr>,
                  S = \<lparr>boxes = [], ids = []\<rparr>\<rparr> = Some (Inr c) \<and>
           sb_Build sb_Init \<lparr>half_open = True, R = \<lparr>boxes = [mkBox (0::nat) 1 0 1], ids = []\<rparr>,
                  S = \<lparr>boxes = [], ids = []\<rparr>\<rparr> = Some (Inr b1) \<and>
           sb_ctx b1 = c \<and> sb_built b1 \<and> ctx_built c)"
  using build_succeeds_on_nonempty_dataset
    [of "\<lparr>half_open = True, R = \<lparr>boxes = [mkBox (0::nat) 1 0 1], ids = []\<rparr>,
                  S = \<lparr>boxes = [], ids = []\<rparr>\<rparr>" sb_Init]
  by (auto simp: Size_def)

theorem build_fails_on_empty_dataset:
  "Validate True \<lparr>half_open = True, R = \<lparr>boxes = ([] :: nat Box list), ids = []\<rparr>,
                   S = \<lparr>boxes = [], ids = []\<rparr>\<rparr> = Inr () \<and>
   ctx_Build \<lparr>half_open = True, R = \<lparr>boxes = ([] :: nat Box list), ids = []\<rparr>,
               S = \<lparr>boxes = [], ids = []\<rparr>\<rparr> = Some (Inl ''Ours2DContext: empty y-domain'') \<and>
   sb_Build sb_Init \<lparr>half_open = True, R = \<lparr>boxes = ([] :: nat Box list), ids = []\<rparr>,
               S = \<lparr>boxes = [], ids = []\<rparr>\<rparr> = Some (Inl ''Ours2DContext: empty y-domain'')"
  by (simp add: Validate_def Validate_rel_def ctx_Build_def sb_Build_def Let_def Size_def
      u32_max_def build_y_domain_def split: prod.splits)

section \<open>Empty samples\<close>

text \<open>
  Claim C8.  On a validated dataset with at least one rectangle and \<open>|R| + |S| \<le> 2^30\<close>,
  \<open>Build\<close> and \<open>Count\<close> succeed, and on the built object, before as well as after
  \<open>Count\<close>: \<open>Sample\<close> with \<open>t = 0\<close> returns success with the empty sample set, whatever
  \<open>|J|\<close> is, leaving object and generator as they were; and when \<open>|J| = 0\<close>, \<open>Count\<close>
  reports exactly \<open>0\<close> and \<open>Sample\<close> with any \<open>t\<close> that fits \<open>u32\<close> returns success
  with the empty sample set, without advancing the generator.
\<close>

theorem sample_empty_on_zero_t_or_empty_join:
  fixes ds :: "('a::linorder) Dataset"
  assumes "Validate True ds = Inr ()"
    and "0 < Size (R ds) + Size (S ds)" and "Size (R ds) + Size (S ds) \<le> 2 ^ 30"
  shows "\<exists>b1 b2. sb_Build b ds = Some (Inr b1) \<and>
           sb_Count b1 = Inr (MakeExactCount (CountNaive (R ds) (S ds)), b2) \<and>
           (run_t cfg = 0 \<longrightarrow>
              sb_Sample b1 cfg g = Some (Inr SampleSet_Clear, b1, g) \<and>
              sb_Sample b2 cfg g = Some (Inr SampleSet_Clear, b2, g)) \<and>
           (CountNaive (R ds) (S ds) = 0 \<and> run_t cfg \<le> u32_max \<longrightarrow>
              sb_Sample b1 cfg g = Some (Inr SampleSet_Clear, if run_t cfg = 0 then b1 else b2, g) \<and>
              sb_Sample b2 cfg g = Some (Inr SampleSet_Clear, b2, g)) \<and>
           pairs SampleSet_Clear = []"
proof -
  from sb_Build_ok[OF assms(3,2), of b] obtain b1
    where b1: "sb_Build b ds = Some (Inr b1)" "sb_ready ds b1" "\<not> sb_weights_valid b1" by blast
  from sb_Count_ok[OF assms(1,3) b1(2)] obtain b2
    where b2: "sb_Count b1 = Inr (MakeExactCount (CountNaive (R ds) (S ds)), b2)"
      "sb_ready ds b2" "sb_weights_valid b2" "sb_W b2 = CountNaive (R ds) (S ds)" by blast
  have r1: "sb_built b1" "ctx_built (sb_ctx b1)" "ctx_ds (sb_ctx b1) = Some ds"
    and r2: "sb_built b2" "ctx_built (sb_ctx b2)" "ctx_ds (sb_ctx b2) = Some ds"
    using b1(2) b2(2) by (simp_all add: sb_ready_def)
  have c: "SampleSet_Clear\<lparr>with_replacement := True, weighted := False\<rparr> = SampleSet_Clear"
    by (simp add: SampleSet_Clear_def)
  have z1: "sb_Sample b1 cfg g = Some (Inr SampleSet_Clear, b1, g)"
    and z2: "sb_Sample b2 cfg g = Some (Inr SampleSet_Clear, b2, g)" if "run_t cfg = 0"
    using that r1 r2 by (simp_all add: sb_Sample_def Let_def c u32_def)
  have e1: "sb_Sample b1 cfg g = Some (Inr SampleSet_Clear, if run_t cfg = 0 then b1 else b2, g)"
    and e2: "sb_Sample b2 cfg g = Some (Inr SampleSet_Clear, b2, g)"
    if "CountNaive (R ds) (S ds) = 0" "run_t cfg \<le> u32_max"
    using that r1 r2 b1(3) b2(1,3,4)
    by (simp_all add: sb_Sample_def Let_def c u32_def u32_max_def)
  from b1(1) b2(1) z1 z2 e1 e2 show ?thesis by (simp add: SampleSet_Clear_def)
qed

theorem sample_empty_on_zero_t_or_empty_join_witness:
  "Validate True \<lparr>half_open = True, R = \<lparr>boxes = [mkBox (0::nat) 1 0 1], ids = []\<rparr>,
                   S = \<lparr>boxes = [mkBox 1 2 0 1], ids = []\<rparr>\<rparr> = Inr () \<and>
   CountNaive \<lparr>boxes = [mkBox (0::nat) 1 0 1], ids = []\<rparr> \<lparr>boxes = [mkBox 1 2 0 1], ids = []\<rparr> = 0 \<and>
   (\<exists>b1 b2. sb_Build sb_Init \<lparr>half_open = True, R = \<lparr>boxes = [mkBox (0::nat) 1 0 1], ids = []\<rparr>,
                   S = \<lparr>boxes = [mkBox 1 2 0 1], ids = []\<rparr>\<rparr> = Some (Inr b1) \<and>
      sb_Count b1 = Inr (MakeExactCount 0, b2) \<and>
      sb_Sample b1 \<lparr>run_t = 3, run_j_star = 0, extra_budget = None, extra_w_small = None\<rparr> (Seed 1) =
        Some (Inr SampleSet_Clear, b2, Seed 1) \<and>
      sb_Sample b2 \<lparr>run_t = 3, run_j_star = 0, extra_budget = None, extra_w_small = None\<rparr> (Seed 1) =
        Some (Inr SampleSet_Clear, b2, Seed 1))"
proof -
  have v: "Validate True \<lparr>half_open = True, R = \<lparr>boxes = [mkBox (0::nat) 1 0 1], ids = []\<rparr>,
                   S = \<lparr>boxes = [mkBox 1 2 0 1], ids = []\<rparr>\<rparr> = Inr ()"
    by (simp add: Validate_def Validate_rel_def IsValid_def IsEmpty_iff upt_Dim mkBox_def)
  have z: "CountNaive \<lparr>boxes = [mkBox (0::nat) 1 0 1], ids = []\<rparr>
             \<lparr>boxes = [mkBox 1 2 0 1], ids = []\<rparr> = 0"
    by (simp add: CountNaive_def IntersectsHalfOpen_def Intersects_def IsEmpty_iff upt_Dim mkBox_def)
  from sample_empty_on_zero_t_or_empty_join
    [OF v, of sb_Init "\<lparr>run_t = 3, run_j_star = 0, extra_budget = None, extra_w_small = None\<rparr>"
       "Seed 1"] v z
  show ?thesis by (auto simp: Size_def u32_max_def)
qed

section \<open>Determinism of a run\<close>




section \<open>Overflow of the running total\<close>








lemma sb_Count_step_adds:
  assumes "kind (events (sb_ctx b) ! pos) = Start"
  shows "snd (sb_Count_step pos (b, W)) = W + start_weight (sb_ctx b) pos"
  using assms by (simp add: sb_Count_step_def start_weight_def Let_def)

lemma sb_Count_only_error:
  "sb_Count b = Inl e \<Longrightarrow> e = ''OursSamplingBaseline::Count: call Build() first''"
  by (simp add: sb_Count_def Let_def split: if_splits prod.splits)







end
